theory Spec2Isabelle
  imports Complex_Main "HOL-Library.Sublist"
begin

section \<open>Strings\<close>

text \<open>
  Column labels and text cells are Python \<open>str\<close> values. They are modelled as
  \<open>string\<close> restricted to ASCII: the character classes below are those of
  \<open>str.isspace\<close>, \<open>str.lower\<close> and the regular expression class \<open>\w\<close> on code points
  below 128. Outside ASCII Python consults the Unicode database, which is not
  part of this development.
\<close>

definition is_space :: "char \<Rightarrow> bool" where
  "is_space c = (let n = (of_char c :: nat) in (9 \<le> n \<and> n \<le> 13) \<or> (28 \<le> n \<and> n \<le> 32))"

definition is_upper :: "char \<Rightarrow> bool" where
  "is_upper c = (let n = (of_char c :: nat) in 65 \<le> n \<and> n \<le> 90)"

definition is_word :: "char \<Rightarrow> bool" where
  "is_word c = (let n = (of_char c :: nat) in
     (48 \<le> n \<and> n \<le> 57) \<or> (65 \<le> n \<and> n \<le> 90) \<or> n = 95 \<or> (97 \<le> n \<and> n \<le> 122))"

definition lower_char :: "char \<Rightarrow> char" where
  "lower_char c = (if is_upper c then char_of ((of_char c :: nat) + 32) else c)"

text \<open>\<open>s.strip()\<close>: leading and trailing whitespace removed.\<close>

definition py_strip :: "string \<Rightarrow> string" where
  "py_strip s = rev (dropWhile is_space (rev (dropWhile is_space s)))"

text \<open>\<open>s.lower()\<close>.\<close>

definition py_lower :: "string \<Rightarrow> string" where
  "py_lower s = map lower_char s"

text \<open>
  \<open>re.sub(r"[^\w]+", "_", s)\<close>: scanning from the left, a character that is not a
  word character starts a match, the match is extended greedily over all the
  following non-word characters, one underscore is written for it and the scan
  goes on behind the match.
\<close>

function sub_nonword :: "string \<Rightarrow> string" where
  "sub_nonword [] = []"
| "sub_nonword (c # s) =
     (if is_word c then c # sub_nonword s
      else CHR ''_'' # sub_nonword (dropWhile (\<lambda>d. \<not> is_word d) s))"
  by pat_completeness auto
termination
  by (relation "measure length") (auto simp: length_dropWhile_le less_Suc_eq_le)

section \<open>Tables\<close>

text \<open>
  The tables are pandas frames, with the behaviour of pandas before version 3:
  texts are held in columns of object dtype.
  A cell is dynamically typed: a text, a number or the missing-value marker
  (\<open>numpy.nan\<close>). A numeric entry is represented by its value; \<open>int64\<close> and
  \<open>float64\<close> entries are not told apart and the infinities are left out.
  A column carries its label, the dtype tag that \<open>select_dtypes\<close> reads, and its
  cells in row order. A table is the list of its columns in column order; labels
  may repeat. Row labels (the index) are not represented: no stage reads them.
\<close>

datatype cell = Str string | Num rat | NaN

datatype dtype = Object | Numeric

record series =
  label :: string
  dtype :: dtype
  cells :: "cell list"

type_synonym table = "series list"

datatype error = KeyError | TypeError | AttributeError | NotModelled

text \<open>What \<open>df[key]\<close> evaluates to: a series when the label names one column, a frame
  when the label is repeated.\<close>

datatype selection = Series series | DataFrame table

definition bind_err :: "error + 'a \<Rightarrow> ('a \<Rightarrow> error + 'b) \<Rightarrow> error + 'b" where
  "bind_err m f = (case m of Inl e \<Rightarrow> Inl e | Inr x \<Rightarrow> f x)"

text \<open>A \<open>for\<close> loop over a list whose body may raise; the first exception ends it.\<close>

fun for_each :: "('a \<Rightarrow> 's \<Rightarrow> error + 's) \<Rightarrow> 'a list \<Rightarrow> 's \<Rightarrow> error + 's" where
  "for_each body [] s = Inr s"
| "for_each body (x # xs) s = bind_err (body x s) (for_each body xs)"

definition columns :: "table \<Rightarrow> string list" where
  "columns t = map label t"

definition nrows :: "table \<Rightarrow> nat" where
  "nrows t = (case t of [] \<Rightarrow> 0 | c # _ \<Rightarrow> length (cells c))"

text \<open>Assignment to \<open>df.columns\<close>; the new labels are always as many as the columns here.\<close>

definition set_columns :: "table \<Rightarrow> string list \<Rightarrow> table" where
  "set_columns t names = map2 (\<lambda>c n. c\<lparr>label := n\<rparr>) t names"

definition getitem :: "table \<Rightarrow> string \<Rightarrow> error + selection" where
  "getitem t key =
     (case filter (\<lambda>c. label c = key) t of
        [] \<Rightarrow> Inl KeyError
      | [c] \<Rightarrow> Inr (Series c)
      | cs \<Rightarrow> Inr (DataFrame cs))"

text \<open>\<open>df[key] = s\<close>: the values and dtype of the column labelled \<open>key\<close> are replaced;
  an unknown label appends a column.\<close>

definition setitem :: "table \<Rightarrow> string \<Rightarrow> series \<Rightarrow> table" where
  "setitem t key s =
     (if key \<in> set (columns t)
      then map (\<lambda>c. if label c = key then c\<lparr>dtype := dtype s, cells := cells s\<rparr> else c) t
      else t @ [s\<lparr>label := key\<rparr>])"

text \<open>Selection of the positions where a boolean mask holds.\<close>

definition select :: "bool list \<Rightarrow> 'a list \<Rightarrow> 'a list" where
  "select m xs = map snd (filter fst (zip m xs))"

text \<open>\<open>df[mask]\<close> with a boolean series: the rows where the mask holds, in order.\<close>

definition take_rows :: "bool list \<Rightarrow> table \<Rightarrow> table" where
  "take_rows m t = map (\<lambda>c. c\<lparr>cells := select m (cells c)\<rparr>) t"

subsection \<open>Text conversion\<close>

text \<open>
  \<open>astype(str)\<close> applies \<open>str\<close> to every entry: a text stays, the missing-value
  marker becomes the text \<open>nan\<close>, a number becomes its decimal rendering. The
  rendering of numbers is the library's; it is the parameter \<open>num_str\<close>.
\<close>

fun to_str :: "(rat \<Rightarrow> string) \<Rightarrow> cell \<Rightarrow> string" where
  "to_str num_str (Str s) = s"
| "to_str num_str (Num r) = num_str r"
| "to_str num_str NaN = ''nan''"

definition astype_str_series :: "(rat \<Rightarrow> string) \<Rightarrow> series \<Rightarrow> series" where
  "astype_str_series num_str s = s\<lparr>dtype := Object, cells := map (\<lambda>v. Str (to_str num_str v)) (cells s)\<rparr>"

fun astype_str :: "(rat \<Rightarrow> string) \<Rightarrow> selection \<Rightarrow> selection" where
  "astype_str num_str (Series s) = Series (astype_str_series num_str s)"
| "astype_str num_str (DataFrame cs) = DataFrame (map (astype_str_series num_str) cs)"

text \<open>\<open>.str.strip()\<close>: only a series of object dtype has the accessor; an entry that is
  not a text gives the missing-value marker.\<close>

fun strip_cell :: "cell \<Rightarrow> cell" where
  "strip_cell (Str s) = Str (py_strip s)"
| "strip_cell _ = NaN"

fun str_strip :: "selection \<Rightarrow> error + series" where
  "str_strip (Series s) =
     (if dtype s = Object then Inr (s\<lparr>cells := map strip_cell (cells s)\<rparr>) else Inl AttributeError)"
| "str_strip (DataFrame cs) = Inl AttributeError"

subsection \<open>Numeric conversion\<close>

text \<open>
  \<open>pd.to_numeric(s, errors="coerce")\<close>: a text is read by the library's scalar
  parser, the parameter \<open>parse\<close>, and becomes the missing-value marker when the
  parser rejects it; numbers and markers stay. A frame is refused.
\<close>

fun coerce :: "(string \<Rightarrow> rat option) \<Rightarrow> cell \<Rightarrow> cell" where
  "coerce parse (Str s) = (case parse s of Some r \<Rightarrow> Num r | None \<Rightarrow> NaN)"
| "coerce parse (Num r) = Num r"
| "coerce parse NaN = NaN"

fun to_numeric :: "(string \<Rightarrow> rat option) \<Rightarrow> selection \<Rightarrow> error + series" where
  "to_numeric parse (Series s) = Inr (s\<lparr>dtype := Numeric, cells := map (coerce parse) (cells s)\<rparr>)"
| "to_numeric parse (DataFrame cs) = Inl TypeError"

fun notna :: "cell \<Rightarrow> bool" where
  "notna NaN = False"
| "notna _ = True"

text \<open>\<open>.all(axis=1)\<close> over the boolean columns \<open>ms\<close> of a frame with \<open>n\<close> rows.\<close>

definition all_axis1 :: "nat \<Rightarrow> bool list list \<Rightarrow> bool list" where
  "all_axis1 n ms = foldr (map2 (\<and>)) ms (replicate n True)"

text \<open>\<open>df.dropna(subset=keys)\<close>: every key must be a label; the rows with no missing-value
  marker in the columns so labelled are kept.\<close>

definition dropna :: "table \<Rightarrow> string list \<Rightarrow> error + table" where
  "dropna t keys =
     (if \<exists>k \<in> set keys. k \<notin> set (columns t) then Inl KeyError
      else
        let agg = filter (\<lambda>c. label c \<in> set keys) t;
            mask = all_axis1 (nrows t) (map (\<lambda>c. map notna (cells c)) agg)
        in Inr (take_rows mask t))"

subsection \<open>Comparison\<close>

text \<open>
  \<open>df[col] >= 0\<close> on a series compares entry by entry: a text against an integer
  raises \<open>TypeError\<close>, the missing-value marker compares false. On a frame the result
  is a boolean frame, and indexing with it masks cells instead of selecting rows;
  that path is not described here and ends in \<open>NotModelled\<close>.
\<close>

fun is_str :: "cell \<Rightarrow> bool" where
  "is_str (Str s) = True"
| "is_str _ = False"

fun nonneg :: "cell \<Rightarrow> bool" where
  "nonneg (Num r) = (0 \<le> r)"
| "nonneg _ = False"

fun ge_zero :: "selection \<Rightarrow> error + bool list" where
  "ge_zero (Series s) =
     (if list_ex is_str (cells s) then Inl TypeError else Inr (map nonneg (cells s)))"
| "ge_zero (DataFrame cs) = Inl NotModelled"

section \<open>The cleaning stages\<close>

definition normalize_name :: "string \<Rightarrow> string" where
  "normalize_name s = sub_nonword (py_lower (py_strip s))"

definition clean_column_names :: "table \<Rightarrow> table" where
  "clean_column_names df =
     (let df_clean = df
      in set_columns df_clean (map sub_nonword (map py_lower (map py_strip (columns df_clean)))))"

text \<open>The labels the Text Trimmer works on: those given, or else those of the object
  columns (\<open>select_dtypes(include="object")\<close>), in column order.\<close>

definition selected_columns :: "table \<Rightarrow> string list option \<Rightarrow> string list" where
  "selected_columns t sel =
     (case sel of None \<Rightarrow> columns (filter (\<lambda>c. dtype c = Object) t) | Some cs \<Rightarrow> cs)"

definition strip_body :: "(rat \<Rightarrow> string) \<Rightarrow> string \<Rightarrow> table \<Rightarrow> error + table" where
  "strip_body num_str col df_clean =
     bind_err (getitem df_clean col) (\<lambda>sel.
     bind_err (str_strip (astype_str num_str sel)) (\<lambda>s.
     Inr (setitem df_clean col s)))"

definition strip_text_columns :: "(rat \<Rightarrow> string) \<Rightarrow> table \<Rightarrow> string list option \<Rightarrow> error + table" where
  "strip_text_columns num_str df text_columns =
     (let df_clean = df;
          text_columns = (case text_columns of
                            None \<Rightarrow> columns (filter (\<lambda>c. dtype c = Object) df_clean)
                          | Some cs \<Rightarrow> cs)
      in for_each (strip_body num_str) text_columns df_clean)"

definition price_cols :: "table \<Rightarrow> string list" where
  "price_cols df = filter (\<lambda>c. sublist ''price'' c) (columns df)"

definition qty_cols :: "table \<Rightarrow> string list" where
  "qty_cols df = filter (\<lambda>c. sublist ''qty'' c \<or> sublist ''quantity'' c) (columns df)"

definition numeric_body :: "(string \<Rightarrow> rat option) \<Rightarrow> string \<Rightarrow> table \<Rightarrow> error + table" where
  "numeric_body parse col df_clean =
     bind_err (getitem df_clean col) (\<lambda>sel.
     bind_err (to_numeric parse sel) (\<lambda>s.
     Inr (setitem df_clean col s)))"

text \<open>\<open>list(set(...))\<close> lists every label once, in an order of the interpreter's choosing;
  \<open>dropna\<close> reads the list as a set.\<close>

definition handle_missing_values :: "(string \<Rightarrow> rat option) \<Rightarrow> table \<Rightarrow> error + table" where
  "handle_missing_values parse df =
     (let df_clean = df
      in bind_err (for_each (numeric_body parse) (price_cols df_clean @ qty_cols df_clean) df_clean)
           (\<lambda>df_conv.
              let required_numeric_cols = remdups (price_cols df_clean @ qty_cols df_clean)
              in if required_numeric_cols \<noteq> [] then dropna df_conv required_numeric_cols
                 else Inr df_conv))"

definition filter_body :: "string \<Rightarrow> table \<Rightarrow> error + table" where
  "filter_body col df_clean =
     bind_err (getitem df_clean col) (\<lambda>sel.
     bind_err (ge_zero sel) (\<lambda>mask.
     Inr (take_rows mask df_clean)))"

definition remove_invalid_rows :: "table \<Rightarrow> error + table" where
  "remove_invalid_rows df =
     (let df_clean = df
      in bind_err (for_each filter_body (price_cols df_clean) df_clean) (\<lambda>df1.
         for_each filter_body (qty_cols df_clean) df1))"

section \<open>The entry point\<close>



section \<open>The stages on a store\<close>

text \<open>
  Frames are objects in a store; a variable holds a reference. \<open>df.copy()\<close>
  allocates a frame with the same content, assignment to \<open>df.columns\<close> and
  \<open>df[col] = s\<close> overwrite the frame referred to, \<open>dropna\<close> and \<open>df[mask]\<close> allocate
  the frame they return.
\<close>

type_synonym ref = nat

type_synonym heap = "table list"

definition copy_df :: "heap \<Rightarrow> ref \<Rightarrow> heap \<times> ref" where
  "copy_df h df = (h @ [h ! df], length h)"

text \<open>A \<open>for\<close> loop whose body works on the store and on the frame a variable refers to.\<close>

fun for_each_st ::
  "('a \<Rightarrow> heap \<Rightarrow> ref \<Rightarrow> heap \<times> (error + ref)) \<Rightarrow> 'a list \<Rightarrow> heap \<Rightarrow> ref \<Rightarrow> heap \<times> (error + ref)" where
  "for_each_st body [] h r = (h, Inr r)"
| "for_each_st body (x # xs) h r =
     (case body x h r of
        (h', Inl e) \<Rightarrow> (h', Inl e)
      | (h', Inr r') \<Rightarrow> for_each_st body xs h' r')"

definition clean_column_names_st :: "heap \<Rightarrow> ref \<Rightarrow> heap \<times> ref" where
  "clean_column_names_st h df =
     (let (h1, df_clean) = copy_df h df;
          names = map sub_nonword (map py_lower (map py_strip (columns (h1 ! df_clean))));
          h2 = h1[df_clean := set_columns (h1 ! df_clean) names]
      in (h2, df_clean))"

definition strip_body_st :: "(rat \<Rightarrow> string) \<Rightarrow> string \<Rightarrow> heap \<Rightarrow> ref \<Rightarrow> heap \<times> (error + ref)" where
  "strip_body_st num_str col h df_clean =
     (case strip_body num_str col (h ! df_clean) of
        Inl e \<Rightarrow> (h, Inl e)
      | Inr t \<Rightarrow> (h[df_clean := t], Inr df_clean))"

definition strip_text_columns_st ::
  "(rat \<Rightarrow> string) \<Rightarrow> heap \<Rightarrow> ref \<Rightarrow> string list option \<Rightarrow> heap \<times> (error + ref)" where
  "strip_text_columns_st num_str h df text_columns =
     (let (h1, df_clean) = copy_df h df;
          text_columns = selected_columns (h1 ! df_clean) text_columns
      in for_each_st (strip_body_st num_str) text_columns h1 df_clean)"

definition numeric_body_st ::
  "(string \<Rightarrow> rat option) \<Rightarrow> string \<Rightarrow> heap \<Rightarrow> ref \<Rightarrow> heap \<times> (error + ref)" where
  "numeric_body_st parse col h df_clean =
     (case numeric_body parse col (h ! df_clean) of
        Inl e \<Rightarrow> (h, Inl e)
      | Inr t \<Rightarrow> (h[df_clean := t], Inr df_clean))"

definition handle_missing_values_st ::
  "(string \<Rightarrow> rat option) \<Rightarrow> heap \<Rightarrow> ref \<Rightarrow> heap \<times> (error + ref)" where
  "handle_missing_values_st parse h df =
     (let (h1, df_clean) = copy_df h df;
          cols = price_cols (h1 ! df_clean) @ qty_cols (h1 ! df_clean)
      in case for_each_st (numeric_body_st parse) cols h1 df_clean of
           (h2, Inl e) \<Rightarrow> (h2, Inl e)
         | (h2, Inr df_clean) \<Rightarrow>
             let required_numeric_cols = remdups cols
             in if required_numeric_cols \<noteq> []
                then (case dropna (h2 ! df_clean) required_numeric_cols of
                        Inl e \<Rightarrow> (h2, Inl e)
                      | Inr t \<Rightarrow> (h2 @ [t], Inr (length h2)))
                else (h2, Inr df_clean))"

definition filter_body_st :: "string \<Rightarrow> heap \<Rightarrow> ref \<Rightarrow> heap \<times> (error + ref)" where
  "filter_body_st col h df_clean =
     (case filter_body col (h ! df_clean) of
        Inl e \<Rightarrow> (h, Inl e)
      | Inr t \<Rightarrow> (h @ [t], Inr (length h)))"

definition remove_invalid_rows_st :: "heap \<Rightarrow> ref \<Rightarrow> heap \<times> (error + ref)" where
  "remove_invalid_rows_st h df =
     (let (h1, df_clean) = copy_df h df;
          pcols = price_cols (h1 ! df_clean);
          qcols = qty_cols (h1 ! df_clean)
      in case for_each_st filter_body_st pcols h1 df_clean of
           (h2, Inl e) \<Rightarrow> (h2, Inl e)
         | (h2, Inr df_clean) \<Rightarrow> for_each_st filter_body_st qcols h2 df_clean)"

text \<open>
  \<open>returns_fresh h res out\<close>: the run of a stage that started in the store \<open>h\<close> and
  ended with \<open>out\<close> left every object of \<open>h\<close> as it was, and its outcome agrees with
  the outcome \<open>res\<close> of the stage as a function of its input table: an exception is
  the same exception, a returned reference is to an object allocated during the
  run and that object is the returned table.
\<close>

definition returns_fresh :: "heap \<Rightarrow> (error + table) \<Rightarrow> heap \<times> (error + ref) \<Rightarrow> bool" where
  "returns_fresh h res out =
     (case out of (h', r) \<Rightarrow>
        take (length h) h' = h \<and>
        (case r of
           Inl e \<Rightarrow> res = Inl e
         | Inr r' \<Rightarrow> length h \<le> r' \<and> r' < length h' \<and> res = Inr (h' ! r')))"

text \<open>\<open>local_run n h r res out\<close>: the same for a part of a run that works on the
  object at \<open>r\<close>, allocated after the first \<open>n\<close> objects.\<close>

definition local_run ::
  "nat \<Rightarrow> heap \<Rightarrow> ref \<Rightarrow> (error + table) \<Rightarrow> heap \<times> (error + ref) \<Rightarrow> bool" where
  "local_run n h r res out =
     (case out of (h', r') \<Rightarrow>
        take n h' = take n h \<and> length h \<le> length h' \<and>
        (case r' of
           Inl e \<Rightarrow> res = Inl e
         | Inr r'' \<Rightarrow> n \<le> r'' \<and> r'' < length h' \<and> res = Inr (h' ! r'')))"

section \<open>Rows\<close>

text \<open>
  A table is aligned when all its columns have the same number of cells. The rows
  of an aligned table are read off its columns; a row lists the cells in column
  order. A table without columns has no rows here.
\<close>

definition aligned :: "table \<Rightarrow> bool" where
  "aligned t = list_all (\<lambda>c. length (cells c) = nrows t) t"

fun rows :: "nat \<Rightarrow> table \<Rightarrow> cell list list" where
  "rows n [] = replicate n []"
| "rows n (c # t) = map2 (#) (cells c) (rows n t)"

definition rows_of :: "table \<Rightarrow> cell list list" where
  "rows_of t = rows (nrows t) t"

text \<open>The classification of a label as a price or quantity column.\<close>

definition matched :: "string \<Rightarrow> bool" where
  "matched l = (sublist ''price'' l \<or> sublist ''qty'' l \<or> sublist ''quantity'' l)"

text \<open>\<open>row_all Q P ls r\<close>: in the row \<open>r\<close> of a table with labels \<open>ls\<close>, every cell under a
  label satisfying \<open>Q\<close> satisfies \<open>P\<close>. \<open>row_map Q f ls r\<close>: the row with \<open>f\<close> applied to the
  cells under such labels.\<close>

definition row_all :: "(string \<Rightarrow> bool) \<Rightarrow> (cell \<Rightarrow> bool) \<Rightarrow> string list \<Rightarrow> cell list \<Rightarrow> bool" where
  "row_all Q P ls r = list_all (\<lambda>(l, v). Q l \<longrightarrow> P v) (zip ls r)"

definition row_map :: "(string \<Rightarrow> bool) \<Rightarrow> (cell \<Rightarrow> cell) \<Rightarrow> string list \<Rightarrow> cell list \<Rightarrow> cell list" where
  "row_map Q f ls r = map2 (\<lambda>l v. if Q l then f v else v) ls r"

fun is_num :: "cell \<Rightarrow> bool" where
  "is_num (Num r) = True"
| "is_num _ = False"


text \<open>The column that \<open>pd.to_numeric\<close> makes of a column, and the column that
  \<open>astype(str).str.strip()\<close> makes of it.\<close>

definition numeric_series :: "(string \<Rightarrow> rat option) \<Rightarrow> series \<Rightarrow> series" where
  "numeric_series parse c = c\<lparr>dtype := Numeric, cells := map (coerce parse) (cells c)\<rparr>"

definition text_series :: "(rat \<Rightarrow> string) \<Rightarrow> series \<Rightarrow> series" where
  "text_series num_str c =
     c\<lparr>dtype := Object, cells := map (\<lambda>v. Str (py_strip (to_str num_str v))) (cells c)\<rparr>"

text \<open>The table with the text \<open>nan\<close> in place of every missing-value marker of an object
  column.\<close>

definition nan_as_text :: "table \<Rightarrow> table" where
  "nan_as_text t =
     map (\<lambda>c. if dtype c = Object
               then c\<lparr>cells := map (\<lambda>v. if v = NaN then Str ''nan'' else v) (cells c)\<rparr>
               else c) t"

section \<open>Example tables\<close>

text \<open>
  For the examples: a scalar parser that accepts the unsigned decimal integers, and
  the decimal rendering of the integer part of a number, which is \<open>str\<close> of an
  integer entry.
\<close>

definition digits_parser :: "string \<Rightarrow> rat option" where
  "digits_parser s =
     (if s \<noteq> [] \<and> list_all (\<lambda>c. 48 \<le> (of_char c :: nat) \<and> (of_char c :: nat) \<le> 57) s
      then Some (of_nat (foldl (\<lambda>n c. 10 * n + (of_char c - 48)) 0 s))
      else None)"

fun nat_digits :: "nat \<Rightarrow> string" where
  "nat_digits n =
     (if n < 10 then [char_of (48 + n)] else nat_digits (n div 10) @ [char_of (48 + n mod 10)])"

definition int_render :: "rat \<Rightarrow> string" where
  "int_render r = (if r < 0 then CHR ''-'' # nat_digits (nat \<lfloor>- r\<rfloor>) else nat_digits (nat \<lfloor>r\<rfloor>))"

text \<open>Three rows with prices \<open>-5, 10, 10\<close> and quantities \<open>3, -1, 3\<close>.\<close>

definition range_example :: table where
  "range_example =
     [\<lparr>label = ''price'', dtype = Numeric, cells = [Num (- 5), Num 10, Num 10]\<rparr>,
      \<lparr>label = ''qty'', dtype = Numeric, cells = [Num 3, Num (- 1), Num 3]\<rparr>]"

text \<open>A raw header over one row of texts.\<close>

definition header_example :: table where
  "header_example =
     [\<lparr>label = ''Product Name'', dtype = Object, cells = [Str '' Apple '']\<rparr>,
      \<lparr>label = '' Unit-Price '', dtype = Object, cells = [Str ''1'']\<rparr>,
      \<lparr>label = ''QTY!'', dtype = Object, cells = [Str ''2'']\<rparr>]"

text \<open>A table whose first row has the price \<open>N/A\<close> and whose second row lacks a quantity.\<close>

definition sanitize_example :: table where
  "sanitize_example =
     [\<lparr>label = ''name'', dtype = Object, cells = [Str ''a'', Str ''b'', Str ''c'']\<rparr>,
      \<lparr>label = ''unit_price'', dtype = Object, cells = [Str ''N/A'', Str ''12'', Str ''7'']\<rparr>,
      \<lparr>label = ''qty'', dtype = Object, cells = [Str ''3'', NaN, Str ''4'']\<rparr>]"


text \<open>The column \<open> Apple \<close>, \<open>Banana\<close>, \<open> pear\<close>.\<close>

definition trim_example :: table where
  "trim_example =
     [\<lparr>label = ''product'', dtype = Object, cells = [Str '' Apple '', Str ''Banana'', Str '' pear'']\<rparr>]"

text \<open>An object column with a missing text beside a numeric column.\<close>

definition nan_example :: table where
  "nan_example =
     [\<lparr>label = ''category'', dtype = Object, cells = [NaN, Str ''nan'', Str '' x '']\<rparr>,
      \<lparr>label = ''amount'', dtype = Numeric, cells = [Num 1, NaN, Num 3]\<rparr>]"

section \<open>Column names\<close>

lemma columns_set_columns:
  "length names = length t \<Longrightarrow> columns (set_columns t names) = names"
  by (induction t arbitrary: names) (auto simp: columns_def set_columns_def length_Suc_conv)

lemma columns_clean_column_names:
  "columns (clean_column_names t) = map normalize_name (columns t)"
proof -
  let ?ns = "map sub_nonword (map py_lower (map py_strip (columns t)))"
  have "length ?ns = length t" by (simp add: columns_def)
  then have "columns (set_columns t ?ns) = ?ns" by (rule columns_set_columns)
  moreover have "?ns = map normalize_name (columns t)"
    by (simp add: normalize_name_def)
  ultimately show ?thesis by (simp add: clean_column_names_def)
qed

lemma cells_set_columns:
  "length names = length t \<Longrightarrow> map cells (set_columns t names) = map cells t"
  by (induction t arbitrary: names) (auto simp: set_columns_def length_Suc_conv)

lemma dtype_set_columns:
  "length names = length t \<Longrightarrow> map dtype (set_columns t names) = map dtype t"
  by (induction t arbitrary: names) (auto simp: set_columns_def length_Suc_conv)

lemma word_sub_nonword: "c \<in> set (sub_nonword s) \<Longrightarrow> is_word c"
  by (induction s rule: sub_nonword.induct) (auto simp: is_word_def split: if_splits)

lemma set_sub_nonword: "set (sub_nonword s) \<subseteq> insert CHR ''_'' (set s)"
proof (induction s rule: sub_nonword.induct)
  case 1
  show ?case by simp
next
  case (2 c s)
  have "set (dropWhile (\<lambda>d. \<not> is_word d) s) \<subseteq> set s"
    by (rule set_dropWhileD [THEN subsetI]) 
  with 2 show ?case by (auto split: if_splits)
qed

lemma not_upper_lower_char: "\<not> is_upper (lower_char c)"
  by (auto simp: lower_char_def is_upper_def of_char_of Let_def)

lemma sub_nonword_id: "\<forall>c \<in> set s. is_word c \<Longrightarrow> sub_nonword s = s"
  by (induction s) auto

lemma py_lower_id: "\<forall>c \<in> set s. \<not> is_upper c \<Longrightarrow> py_lower s = s"
  by (induction s) (auto simp: py_lower_def lower_char_def)

lemma dropWhile_none: "\<forall>c \<in> set s. \<not> P c \<Longrightarrow> dropWhile P s = s"
  by (cases s) auto

lemma py_strip_id: "\<forall>c \<in> set s. \<not> is_space c \<Longrightarrow> py_strip s = s"
  by (simp add: py_strip_def dropWhile_none)

lemma word_not_space: "is_word c \<Longrightarrow> \<not> is_space c"
  by (auto simp: is_word_def is_space_def Let_def)

lemma normalize_name_idem: "normalize_name (normalize_name s) = normalize_name s"
proof -
  let ?n = "normalize_name s"
  have w: "\<forall>c \<in> set ?n. is_word c"
    by (simp add: normalize_name_def word_sub_nonword)
  have "\<forall>c \<in> set ?n. \<not> is_upper c"
  proof
    fix c assume "c \<in> set ?n"
    then have "c = CHR ''_'' \<or> c \<in> set (py_lower (py_strip s))"
      using set_sub_nonword [of "py_lower (py_strip s)"] by (auto simp: normalize_name_def)
    then show "\<not> is_upper c"
      by (auto simp: py_lower_def not_upper_lower_char) (simp add: is_upper_def)
  qed
  then have l: "py_lower ?n = ?n" by (rule py_lower_id)
  have s: "py_strip ?n = ?n" using w by (auto intro!: py_strip_id dest: word_not_space)
  show ?thesis
    unfolding normalize_name_def [of ?n] s l using w by (rule sub_nonword_id)
qed

lemma sub_nonword_word_prefix:
  "\<forall>c \<in> set u. is_word c \<Longrightarrow> sub_nonword (u @ v) = u @ sub_nonword v"
  by (induction u) auto

lemma dropWhile_run:
  "\<forall>c \<in> set n. P c \<Longrightarrow> v = [] \<or> \<not> P (hd v) \<Longrightarrow> dropWhile P (n @ v) = v"
proof (induction n)
  case Nil
  then show ?case by (cases v) auto
next
  case (Cons c n)
  then show ?case by simp
qed

lemma sub_nonword_run:
  assumes "n \<noteq> []" "\<forall>c \<in> set n. \<not> is_word c" "v = [] \<or> is_word (hd v)"
  shows "sub_nonword (n @ v) = CHR ''_'' # sub_nonword v"
proof -
  obtain c n' where n: "n = c # n'" using assms(1) by (cases n) auto
  have "dropWhile (\<lambda>d. \<not> is_word d) (n' @ v) = v"
    using assms(2,3) by (intro dropWhile_run) (auto simp: n)
  then show ?thesis using assms(2) by (simp add: n)
qed

section \<open>Masks and rows\<close>

lemma select_Nil [simp]: "select [] xs = []" "select m [] = []"
  by (simp_all add: select_def)

lemma select_Cons [simp]:
  "select (b # m) (x # xs) = (if b then x # select m xs else select m xs)"
  by (simp add: select_def)

lemma select_map: "select m (map f xs) = map f (select m xs)"
  by (induction m arbitrary: xs) (case_tac xs; simp)+

lemma select_zip: "select m (zip xs ys) = zip (select m xs) (select m ys)"
proof (induction m arbitrary: xs ys)
  case Nil
  show ?case by simp
next
  case (Cons b m)
  show ?case by (cases xs; cases ys) (simp_all add: Cons.IH)
qed

lemma select_map2: "select m (map2 f xs ys) = map2 f (select m xs) (select m ys)"
  by (simp add: select_map select_zip)

lemma select_replicate:
  "length m = n \<Longrightarrow> select m (replicate n x) = replicate (length (filter id m)) x"
  by (induction m arbitrary: n) auto

lemma length_select: "length m = length xs \<Longrightarrow> length (select m xs) = length (filter id m)"
proof (induction m arbitrary: xs)
  case Nil
  show ?case by simp
next
  case (Cons b m)
  then show ?case by (cases xs) auto
qed

lemma select_map_self: "select (map P xs) xs = filter P xs"
  by (induction xs) auto

lemma select_all_True: "list_all id m \<Longrightarrow> length m = length xs \<Longrightarrow> select m xs = xs"
proof (induction m arbitrary: xs)
  case Nil
  then show ?case by simp
next
  case (Cons b m)
  then show ?case by (cases xs) auto
qed

lemma length_rows: "\<forall>c \<in> set t. length (cells c) = n \<Longrightarrow> length (rows n t) = n"
  by (induction t) auto

lemma rows_take_rows:
  "\<forall>c \<in> set t. length (cells c) = n \<Longrightarrow> length m = n \<Longrightarrow>
   rows (length (filter id m)) (take_rows m t) = select m (rows n t)"
  by (induction t) (auto simp: take_rows_def select_replicate select_map2)

lemma alignedD: "aligned t \<Longrightarrow> c \<in> set t \<Longrightarrow> length (cells c) = nrows t"
  by (simp add: aligned_def list_all_iff)

lemma nrows_take_rows:
  "aligned t \<Longrightarrow> length m = nrows t \<Longrightarrow> t \<noteq> [] \<Longrightarrow> nrows (take_rows m t) = length (filter id m)"
  by (cases t) (auto simp: nrows_def take_rows_def length_select)

lemma aligned_take_rows:
  assumes "aligned t" "length m = nrows t"
  shows "aligned (take_rows m t)"
proof (cases "t = []")
  case True
  then show ?thesis by (simp add: aligned_def take_rows_def)
next
  case False
  have "length (cells c) = length (filter id m)" if "c \<in> set (take_rows m t)" for c
    using that assms by (auto simp: take_rows_def length_select dest: alignedD)
  then show ?thesis
    using nrows_take_rows [OF assms False] by (simp add: aligned_def list_all_iff)
qed

lemma rows_of_take_rows:
  assumes "aligned t" "length m = nrows t"
  shows "rows_of (take_rows m t) = select m (rows_of t)"
proof (cases "t = []")
  case True
  then show ?thesis by (simp add: rows_of_def take_rows_def nrows_def)
next
  case False
  have "\<forall>c \<in> set t. length (cells c) = nrows t" using assms(1) by (auto dest: alignedD)
  from rows_take_rows [OF this assms(2)] nrows_take_rows [OF assms False]
  show ?thesis by (simp add: rows_of_def)
qed

lemma columns_take_rows [simp]: "columns (take_rows m t) = columns t"
  by (simp add: columns_def take_rows_def)

lemma dtype_take_rows [simp]: "map dtype (take_rows m t) = map dtype t"
  by (simp add: take_rows_def)

lemma length_rows_of: "aligned t \<Longrightarrow> length (rows_of t) = nrows t"
  by (simp add: rows_of_def length_rows alignedD)

lemma row_all_Nil [simp]: "row_all Q P [] r = True" "row_all Q P ls [] = True"
  by (simp_all add: row_all_def)

lemma row_all_Cons [simp]:
  "row_all Q P (l # ls) (v # r) = ((Q l \<longrightarrow> P v) \<and> row_all Q P ls r)"
  by (simp add: row_all_def)

lemma row_map_Nil [simp]: "row_map Q f [] r = []" "row_map Q f ls [] = []"
  by (simp_all add: row_map_def)

lemma row_map_Cons [simp]:
  "row_map Q f (l # ls) (v # r) = (if Q l then f v else v) # row_map Q f ls r"
  by (simp add: row_map_def)

lemma all_axis1_Nil [simp]: "all_axis1 n [] = replicate n True"
  by (simp add: all_axis1_def)

lemma all_axis1_Cons [simp]: "all_axis1 n (m # ms) = map2 (\<and>) m (all_axis1 n ms)"
  by (simp add: all_axis1_def)

lemma row_all_step:
  "length xs = length ys \<Longrightarrow>
   map (row_all Q P (l # ls)) (map2 (#) xs ys)
   = (if Q l then map2 (\<and>) (map P xs) (map (row_all Q P ls) ys) else map (row_all Q P ls) ys)"
  by (induction xs ys rule: list_induct2) auto

lemma all_axis1_rows:
  assumes "\<forall>c \<in> set t. length (cells c) = n"
  shows "all_axis1 n (map (\<lambda>c. map P (cells c)) (filter (\<lambda>c. Q (label c)) t))
         = map (row_all Q P (map label t)) (rows n t)"
  using assms
proof (induction t)
  case Nil
  show ?case by simp
next
  case (Cons c t)
  then have len: "length (cells c) = length (rows n t)"
    by (simp add: length_rows)
  have ih: "all_axis1 n (map (\<lambda>c. map P (cells c)) (filter (\<lambda>c. Q (label c)) t))
         = map (row_all Q P (map label t)) (rows n t)"
    using Cons by simp
  show ?case
    using ih by (simp add: row_all_step [OF len] del: row_all_Cons map_map)
qed

lemma row_map_step:
  "length xs = length ys \<Longrightarrow>
   map (row_map Q f (l # ls)) (map2 (#) xs ys)
   = map2 (#) (if Q l then map f xs else xs) (map (row_map Q f ls) ys)"
  by (induction xs ys rule: list_induct2) auto

lemma rows_map_cells:
  assumes "\<forall>c \<in> set t. length (cells c) = n"
  shows "rows n (map (\<lambda>c. if Q (label c) then c\<lparr>dtype := d, cells := map f (cells c)\<rparr> else c) t)
         = map (row_map Q f (map label t)) (rows n t)"
  using assms
proof (induction t)
  case Nil
  show ?case by simp
next
  case (Cons c t)
  then have len: "length (cells c) = length (rows n t)"
    by (simp add: length_rows)
  show ?case
    using Cons by (simp add: row_map_step [OF len] del: row_map_Cons map_map)
qed

section \<open>The range filter\<close>

lemma bind_err_Inr_iff:
  "bind_err m f = Inr y \<longleftrightarrow> (\<exists>x. m = Inr x \<and> f x = Inr y)"
  by (cases m) (auto simp: bind_err_def)

lemma bind_err_Inl_iff:
  "bind_err m f = Inl e \<longleftrightarrow> m = Inl e \<or> (\<exists>x. m = Inr x \<and> f x = Inl e)"
  by (cases m) (auto simp: bind_err_def)

lemma bind_err_simps [simp]: "bind_err (Inl e) f = Inl e" "bind_err (Inr x) f = f x"
  by (simp_all add: bind_err_def)

lemma for_each_append:
  "for_each body (xs @ ys) s = bind_err (for_each body xs s) (for_each body ys)"
proof (induction xs arbitrary: s)
  case Nil
  show ?case by simp
next
  case (Cons x xs)
  show ?case by (cases "body x s") (simp_all add: Cons.IH)
qed

lemma getitem_Series_iff:
  "getitem t k = Inr (Series s) \<longleftrightarrow> filter (\<lambda>c. label c = k) t = [s]"
  by (auto simp: getitem_def split: list.splits)

lemma getitem_KeyError_iff:
  "getitem t k = Inl e \<longleftrightarrow> e = KeyError \<and> k \<notin> set (columns t)"
proof -
  have "getitem t k = Inl e \<longleftrightarrow> e = KeyError \<and> filter (\<lambda>c. label c = k) t = []"
    by (auto simp: getitem_def split: list.splits)
  then show ?thesis
    by (auto simp: columns_def filter_empty_conv)
qed

lemma getitem_DataFrame_iff:
  "getitem t k = Inr (DataFrame cs) \<longleftrightarrow> cs = filter (\<lambda>c. label c = k) t \<and> 2 \<le> length cs"
  by (auto simp: getitem_def split: list.splits)

lemma filter_singleton_mem: "filter P xs = [s] \<Longrightarrow> s \<in> set xs \<and> P s"
proof -
  assume "filter P xs = [s]"
  then have "s \<in> set (filter P xs)" by simp
  then show ?thesis by simp
qed

lemma map2_and_True: "length m = n \<Longrightarrow> map2 (\<and>) m (replicate n True) = m"
  by (induction m arbitrary: n) auto

lemma series_mask_rows:
  assumes "aligned t" "filter (\<lambda>c. label c = x) t = [s]"
  shows "map P (cells s) = map (row_all (\<lambda>l. l = x) P (columns t)) (rows_of t)"
proof -
  have al: "\<forall>c \<in> set t. length (cells c) = nrows t"
    using assms(1) by (auto dest: alignedD)
  have "s \<in> set t" using assms(2) by (auto dest: filter_singleton_mem)
  then have len: "length (map P (cells s)) = nrows t" using al by simp
  have "all_axis1 (nrows t) (map (\<lambda>c. map P (cells c)) (filter (\<lambda>c. label c = x) t))
        = map (row_all (\<lambda>l. l = x) P (map label t)) (rows (nrows t) t)"
    using al by (rule all_axis1_rows)
  then show ?thesis
    using len by (simp add: assms(2) map2_and_True rows_of_def columns_def)
qed

lemma filter_body_rows:
  assumes "aligned t" "filter_body x t = Inr t1"
  shows "columns t1 = columns t \<and> map dtype t1 = map dtype t \<and> aligned t1 \<and>
         rows_of t1 = filter (row_all (\<lambda>l. l = x) nonneg (columns t)) (rows_of t)"
proof -
  from assms(2) obtain sel mask where
    g: "getitem t x = Inr sel" and z: "ge_zero sel = Inr mask" and t1: "t1 = take_rows mask t"
    by (auto simp: filter_body_def bind_err_Inr_iff)
  from z obtain s where sel: "sel = Series s" and mask: "mask = map nonneg (cells s)"
    by (cases sel) (auto split: if_splits)
  from g sel have f: "filter (\<lambda>c. label c = x) t = [s]"
    by (simp add: getitem_Series_iff)
  have m: "mask = map (row_all (\<lambda>l. l = x) nonneg (columns t)) (rows_of t)"
    unfolding mask using assms(1) f by (rule series_mask_rows)
  then have len: "length mask = nrows t"
    using assms(1) by (simp add: length_rows_of)
  show ?thesis
    unfolding t1
    using rows_of_take_rows [OF assms(1) len] aligned_take_rows [OF assms(1) len]
    by (simp add: m select_map_self)
qed

lemma for_each_filter_body_rows:
  assumes "aligned t" "for_each filter_body xs t = Inr t'"
  shows "columns t' = columns t \<and> map dtype t' = map dtype t \<and> aligned t' \<and>
         rows_of t' = filter (\<lambda>r. \<forall>x \<in> set xs. row_all (\<lambda>l. l = x) nonneg (columns t) r) (rows_of t)"
  using assms
proof (induction xs arbitrary: t)
  case Nil
  then show ?case by simp
next
  case (Cons x xs)
  from Cons.prems(2) obtain t1 where
    b: "filter_body x t = Inr t1" and r: "for_each filter_body xs t1 = Inr t'"
    by (auto simp: bind_err_Inr_iff)
  note s1 = filter_body_rows [OF Cons.prems(1) b]
  then have "aligned t1" by simp
  note s2 = Cons.IH [OF this r]
  show ?case
    using s1 s2 by (auto simp: conj_commute intro: filter_cong)
qed

lemma row_all_mem_cong:
  assumes "\<And>l. l \<in> set ls \<Longrightarrow> Q l = Q' l"
  shows "row_all Q P ls r = row_all Q' P ls r"
  using assms by (auto simp: row_all_def list_all_iff dest: set_zip_leftD)

lemma row_all_set:
  "(\<forall>x \<in> set xs. row_all (\<lambda>l. l = x) P ls r) = row_all (\<lambda>l. l \<in> set xs) P ls r"
  by (auto simp: row_all_def list_all_iff)

lemma set_matched_cols:
  "set (price_cols t @ qty_cols t) = {l \<in> set (columns t). matched l}"
  by (auto simp: price_cols_def qty_cols_def matched_def)

lemma row_all_matched_cols:
  "row_all (\<lambda>l. l \<in> set (price_cols t @ qty_cols t)) P (columns t) r = row_all matched P (columns t) r"
  by (rule row_all_mem_cong) (simp add: set_matched_cols del: set_append)

lemma remove_invalid_rows_loop:
  "remove_invalid_rows t = for_each filter_body (price_cols t @ qty_cols t) t"
  by (simp add: remove_invalid_rows_def for_each_append)

lemma remove_invalid_rows_rows:
  assumes "aligned t" "remove_invalid_rows t = Inr t'"
  shows "columns t' = columns t \<and> map dtype t' = map dtype t \<and> aligned t' \<and>
         rows_of t' = filter (row_all matched nonneg (columns t)) (rows_of t)"
  using for_each_filter_body_rows [OF assms(1) assms(2) [unfolded remove_invalid_rows_loop]]
  by (simp only: row_all_set row_all_matched_cols)



lemma distinct_filter_eq_le1:
  "distinct ys \<Longrightarrow> length (filter (\<lambda>y. y = x) ys) \<le> 1"
  by (induction ys) (auto simp: filter_empty_conv)

lemma length_filter_label:
  "matched x \<Longrightarrow>
   length (filter (\<lambda>c. label c = x) t) = length (filter (\<lambda>y. y = x) (filter matched (columns t)))"
  by (induction t) (auto simp: columns_def)

lemma dup_not_distinct:
  "matched x \<Longrightarrow> 2 \<le> length (filter (\<lambda>c. label c = x) t) \<Longrightarrow> \<not> distinct (filter matched (columns t))"
  using distinct_filter_eq_le1 [of "filter matched (columns t)" x]
  by (auto simp: length_filter_label)

lemma unique_matched_Series:
  assumes "distinct (filter matched (columns t))" "matched x" "x \<in> set (columns t)"
  shows "\<exists>s. getitem t x = Inr (Series s)"
proof -
  have "length (filter (\<lambda>c. label c = x) t) \<le> 1"
    using distinct_filter_eq_le1 [OF assms(1), of x] assms(2) by (simp add: length_filter_label)
  moreover have "filter (\<lambda>c. label c = x) t \<noteq> []"
    using assms(3) by (auto simp: filter_empty_conv columns_def)
  ultimately obtain s where "filter (\<lambda>c. label c = x) t = [s]"
    by (cases "filter (\<lambda>c. label c = x) t") auto
  then show ?thesis by (auto simp: getitem_Series_iff)
qed



section \<open>The numeric sanitizer\<close>

lemma dropna_set_cong: "set ks = set ks' \<Longrightarrow> dropna t ks = dropna t ks'"
  by (simp add: dropna_def)

lemma coerce_idem [simp]: "coerce parse (coerce parse v) = coerce parse v"
  by (cases v) (auto split: option.splits)

lemma numeric_series_idem [simp]:
  "numeric_series parse (numeric_series parse c) = numeric_series parse c"
  by (simp add: numeric_series_def)

lemma label_numeric_series [simp]: "label (numeric_series parse c) = label c"
  by (simp add: numeric_series_def)

lemma numeric_body_result:
  assumes "numeric_body parse x t = Inr t1"
  shows "t1 = map (\<lambda>c. if label c = x then numeric_series parse c else c) t"
proof -
  from assms obtain sel s' where
    g: "getitem t x = Inr sel" and n: "to_numeric parse sel = Inr s'" and t1: "t1 = setitem t x s'"
    by (auto simp: numeric_body_def bind_err_Inr_iff)
  from n obtain s where sel: "sel = Series s" and s': "s' = numeric_series parse s"
    by (cases sel) (auto simp: numeric_series_def)
  from g sel have f: "filter (\<lambda>c. label c = x) t = [s]"
    by (simp add: getitem_Series_iff)
  then have mem: "s \<in> set t" "label s = x" by (auto dest: filter_singleton_mem)
  then have xin: "x \<in> set (columns t)" by (auto simp: columns_def)
  have only: "c = s" if "c \<in> set t" "label c = x" for c
  proof -
    from that have "c \<in> set (filter (\<lambda>c. label c = x) t)" by simp
    then show ?thesis by (simp add: f)
  qed
  show ?thesis
    unfolding t1 setitem_def using xin
    by (auto simp: s' numeric_series_def dest: only)
qed

lemma for_each_numeric_body_result:
  assumes "for_each (numeric_body parse) xs t = Inr t1"
  shows "t1 = map (\<lambda>c. if label c \<in> set xs then numeric_series parse c else c) t"
  using assms
proof (induction xs arbitrary: t)
  case Nil
  then show ?case by simp
next
  case (Cons x xs)
  from Cons.prems obtain t0 where
    b: "numeric_body parse x t = Inr t0" and r: "for_each (numeric_body parse) xs t0 = Inr t1"
    by (auto simp: bind_err_Inr_iff)
  show ?case
    unfolding Cons.IH [OF r] numeric_body_result [OF b] by auto
qed

lemma for_each_numeric_body_error:
  assumes "for_each (numeric_body parse) xs t = Inl e" "set xs \<subseteq> set (columns t)"
  shows "e = TypeError \<and> (\<exists>x \<in> set xs. 2 \<le> length (filter (\<lambda>c. label c = x) t))"
  using assms
proof (induction xs arbitrary: t)
  case Nil
  then show ?case by simp
next
  case (Cons x xs)
  from Cons.prems(2) have xin: "x \<in> set (columns t)" by simp
  consider (now) "numeric_body parse x t = Inl e"
    | (later) t0 where "numeric_body parse x t = Inr t0" "for_each (numeric_body parse) xs t0 = Inl e"
    using Cons.prems(1) by (auto simp: bind_err_Inl_iff)
  then show ?case
  proof cases
    case now
    then consider "getitem t x = Inl e"
      | sel where "getitem t x = Inr sel" "to_numeric parse sel = Inl e"
      by (auto simp: numeric_body_def bind_err_Inl_iff)
    then show ?thesis
    proof cases
      case 1
      with xin show ?thesis by (simp add: getitem_KeyError_iff)
    next
      case 2
      then show ?thesis by (cases sel) (auto simp: getitem_DataFrame_iff)
    qed
  next
    case later
    note t0 = numeric_body_result [OF later(1)]
    have lab: "map label t0 = map label t" by (simp add: t0 comp_def cong: if_cong)
    have "set xs \<subseteq> set (columns t0)" using Cons.prems(2) lab by (simp add: columns_def)
    from Cons.IH [OF later(2) this] obtain y where
      y: "y \<in> set xs" "2 \<le> length (filter (\<lambda>c. label c = y) t0)" and e: "e = TypeError" by auto
    have "length (filter (\<lambda>c. label c = y) t0) = length (filter (\<lambda>l. l = y) (map label t0))"
      by (simp add: filter_map comp_def)
    also have "\<dots> = length (filter (\<lambda>c. label c = y) t)"
      by (simp add: lab filter_map comp_def)
    finally show ?thesis using y e by auto
  qed
qed

lemma aligned_map_cells:
  assumes "aligned t" "\<And>c. length (cells (g c)) = length (cells c)"
  shows "aligned (map g t)" "nrows (map g t) = nrows t"
proof -
  show n: "nrows (map g t) = nrows t"
    by (cases t) (auto simp: nrows_def assms(2))
  show "aligned (map g t)"
    using assms by (auto simp: aligned_def list_all_iff n)
qed

lemma row_all_False: "\<forall>l \<in> set ls. \<not> Q l \<Longrightarrow> row_all Q P ls r"
  by (auto simp: row_all_def list_all_iff dest: set_zip_leftD)

lemma handle_missing_values_rows:
  assumes "aligned t" "handle_missing_values parse t = Inr t'"
  shows "columns t' = columns t \<and> aligned t'
         \<and> map dtype t' = map (\<lambda>c. if matched (label c) then Numeric else dtype c) t
         \<and> rows_of t' = filter (row_all matched notna (columns t))
                            (map (row_map matched (coerce parse) (columns t)) (rows_of t))"
proof -
  let ?cols = "price_cols t @ qty_cols t"
  let ?g = "\<lambda>c. if matched (label c) then c\<lparr>dtype := Numeric, cells := map (coerce parse) (cells c)\<rparr> else c"
  from assms(2) obtain t1 where
    l: "for_each (numeric_body parse) ?cols t = Inr t1" and
    d: "(if remdups ?cols \<noteq> [] then dropna t1 (remdups ?cols) else Inr t1) = Inr t'"
    by (auto simp: handle_missing_values_def bind_err_Inr_iff Let_def)
  have "t1 = map (\<lambda>c. if label c \<in> set ?cols then numeric_series parse c else c) t"
    using l by (rule for_each_numeric_body_result)
  also have "\<dots> = map ?g t"
    by (rule map_cong) (auto simp: set_matched_cols numeric_series_def columns_def simp del: set_append)
  finally have t1: "t1 = map ?g t" .
  have lab: "columns t1 = columns t"
    unfolding t1 by (simp add: columns_def comp_def cong: if_cong)
  have al1: "aligned t1" and n1: "nrows t1 = nrows t"
    unfolding t1 using assms(1) by (rule aligned_map_cells; simp)+
  have al: "\<forall>c \<in> set t. length (cells c) = nrows t"
    using assms(1) by (auto dest: alignedD)
  have r1: "rows_of t1 = map (row_map matched (coerce parse) (columns t)) (rows_of t)"
    unfolding rows_of_def n1 columns_def unfolding t1 using al by (rule rows_map_cells)
  have dt1: "map dtype t1 = map (\<lambda>c. if matched (label c) then Numeric else dtype c) t"
    unfolding t1 by simp
  show ?thesis
  proof (cases "remdups ?cols = []")
    case True
    then have "\<forall>l \<in> set (columns t). \<not> matched l"
      using set_matched_cols [of t] by (auto simp del: set_append)
    then have "filter (row_all matched notna (columns t)) xs = xs" for xs
      by (simp add: row_all_False)
    moreover from True d have "t' = t1" by simp
    ultimately show ?thesis using lab al1 r1 dt1 by simp
  next
    case False
    with d have dn: "dropna t1 (remdups ?cols) = Inr t'" by simp
    have sub: "\<not> (\<exists>k \<in> set (remdups ?cols). k \<notin> set (columns t1))"
      unfolding lab by (auto simp: set_matched_cols simp del: set_append)
    define mask where "mask = all_axis1 (nrows t1)
        (map (\<lambda>c. map notna (cells c)) (filter (\<lambda>c. label c \<in> set (remdups ?cols)) t1))"
    from dn sub have t': "t' = take_rows mask t1"
      by (simp add: dropna_def Let_def mask_def)
    have al1': "\<forall>c \<in> set t1. length (cells c) = nrows t1"
      using alignedD [OF al1] by blast
    have "mask = map (row_all (\<lambda>l. l \<in> set (remdups ?cols)) notna (map label t1)) (rows (nrows t1) t1)"
      unfolding mask_def using al1' by (rule all_axis1_rows)
    also have "map label t1 = columns t" using lab by (simp add: columns_def)
    also have "rows (nrows t1) t1 = rows_of t1" by (simp add: rows_of_def)
    also have "row_all (\<lambda>l. l \<in> set (remdups ?cols)) notna (columns t) = row_all matched notna (columns t)"
      using row_all_matched_cols [of t notna] by (auto simp del: set_append)
    finally have mask: "mask = map (row_all matched notna (columns t)) (rows_of t1)" .
    then have len: "length mask = nrows t1"
      using al1 by (simp add: length_rows_of)
    have "rows_of t' = filter (row_all matched notna (columns t)) (rows_of t1)"
      unfolding t' rows_of_take_rows [OF al1 len] unfolding mask by (rule select_map_self)
    then show ?thesis
      unfolding t' using aligned_take_rows [OF al1 len] lab dt1 r1 by simp
  qed
qed

lemma handle_missing_values_error:
  assumes "handle_missing_values parse t = Inl e"
  shows "e = TypeError \<and> \<not> distinct (filter matched (columns t))"
proof -
  let ?cols = "price_cols t @ qty_cols t"
  have sub: "set ?cols \<subseteq> set (columns t)"
    by (auto simp: set_matched_cols simp del: set_append)
  have "for_each (numeric_body parse) ?cols t = Inl e"
  proof (rule ccontr)
    assume n: "for_each (numeric_body parse) ?cols t \<noteq> Inl e"
    with assms obtain t1 where
      l: "for_each (numeric_body parse) ?cols t = Inr t1" and
      d: "(if remdups ?cols \<noteq> [] then dropna t1 (remdups ?cols) else Inr t1) = Inl e"
      by (auto simp: handle_missing_values_def bind_err_Inl_iff Let_def)
    have "columns t1 = columns t"
      unfolding for_each_numeric_body_result [OF l]
      by (simp add: columns_def comp_def cong: if_cong)
    with d sub show False
      by (auto simp: dropna_def Let_def split: if_splits)
  qed
  from for_each_numeric_body_error [OF this sub]
  show ?thesis
    by (auto simp: set_matched_cols dup_not_distinct simp del: set_append)
qed

lemma in_map2_Cons_left:
  "length xs = length ys \<Longrightarrow> v \<in> set xs \<Longrightarrow> \<exists>r. r \<in> set ys \<and> v # r \<in> set (map2 (#) xs ys)"
  by (induction xs ys rule: list_induct2) auto

lemma in_map2_Cons_right:
  "length xs = length ys \<Longrightarrow> r \<in> set ys \<Longrightarrow> \<exists>v. v # r \<in> set (map2 (#) xs ys)"
  by (induction xs ys rule: list_induct2) auto

lemma cell_in_rows:
  assumes "\<forall>c \<in> set t. length (cells c) = n" "c \<in> set t" "v \<in> set (cells c)"
  shows "\<exists>r \<in> set (rows n t). (label c, v) \<in> set (zip (map label t) r)"
  using assms
proof (induction t)
  case Nil
  then show ?case by simp
next
  case (Cons d t)
  then have len: "length (cells d) = length (rows n t)" by (simp add: length_rows)
  show ?case
  proof (cases "c = d")
    case True
    with Cons.prems(3) in_map2_Cons_left [OF len, of v]
    obtain r where "v # r \<in> set (map2 (#) (cells d) (rows n t))" by blast
    then have "v # r \<in> set (rows n (d # t))" by simp
    then show ?thesis by (rule rev_bexI) (simp add: True)
  next
    case False
    with Cons obtain r where r: "r \<in> set (rows n t)" "(label c, v) \<in> set (zip (map label t) r)"
      by auto
    from in_map2_Cons_right [OF len r(1)]
    obtain w where "w # r \<in> set (map2 (#) (cells d) (rows n t))" by blast
    then have "w # r \<in> set (rows n (d # t))" by simp
    then show ?thesis by (rule rev_bexI) (simp add: r(2))
  qed
qed

lemma notna_coerce_is_num: "notna (coerce parse v) \<Longrightarrow> is_num (coerce parse v)"
  by (cases v) (auto split: option.splits)

lemma row_coerced_numbers:
  assumes "row_all Q notna ls (row_map Q (coerce parse) ls r)"
    "(l, v) \<in> set (zip ls (row_map Q (coerce parse) ls r))" "Q l"
  shows "is_num v"
  using assms
proof (induction ls arbitrary: r)
  case Nil
  then show ?case by simp
next
  case (Cons k ls)
  then show ?case by (cases r) (auto simp: notna_coerce_is_num split: if_splits)
qed

lemma row_missing_dropped:
  assumes "(l, v) \<in> set (zip ls r)" "Q l" "f v = NaN"
  shows "\<not> row_all Q notna ls (row_map Q f ls r)"
  using assms
proof (induction ls arbitrary: r)
  case Nil
  then show ?case by simp
next
  case (Cons k ls)
  then show ?case by (cases r) auto
qed




lemma length_filter_on_labels:
  "length (filter (\<lambda>c. label c = x) u) = length (filter (\<lambda>l. l = x) (map label u))"
  by (induction u) auto






lemma matched_columns_numbers:
  assumes "aligned t'" "c \<in> set t'" "matched (label c)"
    "rows_of t' = filter (row_all matched notna (columns t'))
                    (map (row_map matched (coerce parse) (columns t')) rs)"
  shows "list_all is_num (cells c)"
  unfolding list_all_iff
proof
  fix v assume v: "v \<in> set (cells c)"
  have "\<forall>c \<in> set t'. length (cells c) = nrows t'" using alignedD [OF assms(1)] by blast
  from cell_in_rows [OF this assms(2) v] obtain r where
    r: "r \<in> set (rows_of t')" "(label c, v) \<in> set (zip (columns t') r)"
    by (auto simp: rows_of_def columns_def)
  from r(1) obtain r0 where
    r0: "r = row_map matched (coerce parse) (columns t') r0" "row_all matched notna (columns t') r"
    unfolding assms(4) by auto
  show "is_num v"
    using r0(2) r(2) assms(3) unfolding r0(1) by (rule row_coerced_numbers)
qed

section \<open>The text trimmer\<close>

lemma dropWhile_rev_dropWhile:
  "dropWhile P (rev (dropWhile P (rev (dropWhile P s)))) = rev (dropWhile P (rev (dropWhile P s)))"
proof (cases "dropWhile P s")
  case Nil
  show ?thesis unfolding Nil by simp
next
  case (Cons a as)
  then have na: "\<not> P a" by (metis hd_dropWhile list.sel(1) list.distinct(1))
  have "dropWhile P (rev as @ [a]) = dropWhile P (rev as) @ [a]"
    using na by (simp add: dropWhile_append3)
  then show ?thesis
    using na by (simp add: Cons)
qed

lemma py_strip_idem [simp]: "py_strip (py_strip s) = py_strip s"
  unfolding py_strip_def
  by (simp only: dropWhile_rev_dropWhile rev_rev_ident dropWhile_idem)

lemma text_series_idem [simp]: "text_series num_str (text_series num_str c) = text_series num_str c"
  by (simp add: text_series_def)

lemma label_text_series [simp]: "label (text_series num_str c) = label c"
  by (simp add: text_series_def)

lemma strip_body_result:
  assumes "strip_body num_str x t = Inr t1"
  shows "t1 = map (\<lambda>c. if label c = x then text_series num_str c else c) t"
proof -
  from assms obtain sel s' where
    g: "getitem t x = Inr sel" and n: "str_strip (astype_str num_str sel) = Inr s'"
    and t1: "t1 = setitem t x s'"
    by (auto simp: strip_body_def bind_err_Inr_iff)
  from n obtain s where sel: "sel = Series s" and s': "s' = text_series num_str s"
    by (cases sel) (auto simp: text_series_def astype_str_series_def comp_def)
  from g sel have f: "filter (\<lambda>c. label c = x) t = [s]"
    by (simp add: getitem_Series_iff)
  then have mem: "s \<in> set t" "label s = x" by (auto dest: filter_singleton_mem)
  then have xin: "x \<in> set (columns t)" by (auto simp: columns_def)
  have only: "c = s" if "c \<in> set t" "label c = x" for c
  proof -
    from that have "c \<in> set (filter (\<lambda>c. label c = x) t)" by simp
    then show ?thesis by (simp add: f)
  qed
  show ?thesis
    unfolding t1 setitem_def using xin
    by (auto simp: s' text_series_def dest: only)
qed

lemma strip_body_Series:
  "strip_body num_str x t = Inr t1 \<Longrightarrow> \<exists>s. getitem t x = Inr (Series s)"
  by (auto simp: strip_body_def bind_err_Inr_iff elim: str_strip.elims astype_str.elims)

lemma strip_body_total:
  "getitem t x = Inr (Series s) \<Longrightarrow> \<exists>t1. strip_body num_str x t = Inr t1"
  by (simp add: strip_body_def astype_str_series_def)


lemma map_label_text_map:
  "map label (map (\<lambda>c. if Q c then text_series num_str c else c) t) = map label t"
  by (induction t) auto

lemma for_each_strip_body_result:
  assumes "for_each (strip_body num_str) xs t = Inr t1"
  shows "t1 = map (\<lambda>c. if label c \<in> set xs then text_series num_str c else c) t"
  using assms
proof (induction xs arbitrary: t)
  case Nil
  then show ?case by simp
next
  case (Cons x xs)
  from Cons.prems obtain t0 where
    b: "strip_body num_str x t = Inr t0" and r: "for_each (strip_body num_str) xs t0 = Inr t1"
    by (auto simp: bind_err_Inr_iff)
  show ?case
    unfolding Cons.IH [OF r] strip_body_result [OF b] by auto
qed

lemma for_each_strip_body_unique:
  assumes "for_each (strip_body num_str) xs t = Inr t1" "x \<in> set xs"
  shows "length (filter (\<lambda>c. label c = x) t) = 1"
  using assms
proof (induction xs arbitrary: t)
  case Nil
  then show ?case by simp
next
  case (Cons y xs)
  from Cons.prems(1) obtain t0 where
    b: "strip_body num_str y t = Inr t0" and r: "for_each (strip_body num_str) xs t0 = Inr t1"
    by (auto simp: bind_err_Inr_iff)
  show ?case
  proof (cases "x = y")
    case True
    from strip_body_Series [OF b] show ?thesis by (auto simp: True getitem_Series_iff)
  next
    case False
    with Cons.prems(2) have "x \<in> set xs" by simp
    from Cons.IH [OF r this] have "length (filter (\<lambda>c. label c = x) t0) = 1" .
    moreover have "map label t0 = map label t"
      unfolding strip_body_result [OF b] by (rule map_label_text_map)
    ultimately show ?thesis
      by (simp only: length_filter_on_labels [of x t0] length_filter_on_labels [of x t])
  qed
qed

lemma for_each_strip_body_total:
  assumes "\<forall>x \<in> set xs. length (filter (\<lambda>c. label c = x) t) = 1"
  shows "\<exists>t1. for_each (strip_body num_str) xs t = Inr t1"
  using assms
proof (induction xs arbitrary: t)
  case Nil
  show ?case by simp
next
  case (Cons x xs)
  from Cons.prems obtain s where "filter (\<lambda>c. label c = x) t = [s]"
    by (cases "filter (\<lambda>c. label c = x) t") auto
  then have "getitem t x = Inr (Series s)" by (simp add: getitem_Series_iff)
  from strip_body_total [OF this] obtain t0 where b: "strip_body num_str x t = Inr t0" by blast
  have lab: "map label t0 = map label t"
    unfolding strip_body_result [OF b] by (rule map_label_text_map)
  have "\<forall>y \<in> set xs. length (filter (\<lambda>c. label c = y) t0) = 1"
    using Cons.prems
    by (simp only: length_filter_on_labels [of _ t0] length_filter_on_labels [of _ t] lab) simp
  from Cons.IH [OF this] show ?case by (simp add: b)
qed


lemma strip_text_columns_loop:
  "strip_text_columns num_str t sel = for_each (strip_body num_str) (selected_columns t sel) t"
  by (simp add: strip_text_columns_def selected_columns_def)


lemma object_selected:
  assumes "strip_text_columns num_str t None = Inr t'" "c \<in> set t"
  shows "label c \<in> set (selected_columns t None) \<longleftrightarrow> dtype c = Object"
proof
  assume "dtype c = Object"
  with assms(2) show "label c \<in> set (selected_columns t None)"
    by (auto simp: selected_columns_def columns_def)
next
  assume l: "label c \<in> set (selected_columns t None)"
  then obtain d where d: "d \<in> set t" "dtype d = Object" "label d = label c"
    by (auto simp: selected_columns_def columns_def)
  from for_each_strip_body_unique [OF assms(1) [unfolded strip_text_columns_loop] l]
  obtain s where s: "filter (\<lambda>k. label k = label c) t = [s]"
    by (cases "filter (\<lambda>k. label k = label c) t") auto
  have "c \<in> set (filter (\<lambda>k. label k = label c) t)" "d \<in> set (filter (\<lambda>k. label k = label c) t)"
    using assms(2) d by simp_all
  then have "c = d" unfolding s by simp
  with d show "dtype c = Object" by simp
qed

lemma strip_text_columns_None_result:
  assumes "strip_text_columns num_str t None = Inr t'"
  shows "t' = map (\<lambda>c. if dtype c = Object then text_series num_str c else c) t"
proof -
  have "t' = map (\<lambda>c. if label c \<in> set (selected_columns t None) then text_series num_str c else c) t"
    using assms unfolding strip_text_columns_loop by (rule for_each_strip_body_result)
  also have "\<dots> = map (\<lambda>c. if dtype c = Object then text_series num_str c else c) t"
    by (rule map_cong) (simp_all add: object_selected [OF assms])
  finally show ?thesis .
qed

lemma nan_as_text_labels: "map label (nan_as_text t) = map label t"
  by (induction t) (auto simp: nan_as_text_def)

lemma text_series_nan_as_text:
  "map (\<lambda>c. if dtype c = Object then text_series num_str c else c) (nan_as_text t)
   = map (\<lambda>c. if dtype c = Object then text_series num_str c else c) t"
proof -
  have p: "py_strip ''nan'' = ''nan''" by code_simp
  have "(\<lambda>v. Str (py_strip (to_str num_str (if v = NaN then Str ''nan'' else v))))
        = (\<lambda>v. Str (py_strip (to_str num_str v)))"
    by (rule ext) simp
  then show ?thesis
    by (simp add: nan_as_text_def text_series_def comp_def cong: if_cong)
qed

lemma selected_nan_as_text: "selected_columns (nan_as_text t) None = selected_columns t None"
  by (induction t) (auto simp: selected_columns_def nan_as_text_def columns_def)

lemma strip_text_columns_rows:
  assumes "aligned t" "strip_text_columns num_str t sel = Inr t'"
  shows "rows_of t' = map (row_map (\<lambda>l. l \<in> set (selected_columns t sel))
                              (\<lambda>v. Str (py_strip (to_str num_str v))) (columns t)) (rows_of t)
         \<and> aligned t' \<and> columns t' = columns t"
proof -
  let ?g = "\<lambda>c. if label c \<in> set (selected_columns t sel)
                  then c\<lparr>dtype := Object, cells := map (\<lambda>v. Str (py_strip (to_str num_str v))) (cells c)\<rparr>
                  else c"
  have "t' = map (\<lambda>c. if label c \<in> set (selected_columns t sel) then text_series num_str c else c) t"
    using assms(2) unfolding strip_text_columns_loop by (rule for_each_strip_body_result)
  then have t': "t' = map ?g t" by (simp add: text_series_def)
  have al': "aligned t'" and n: "nrows t' = nrows t"
    unfolding t' using assms(1) by (rule aligned_map_cells; simp)+
  have lab: "columns t' = columns t"
    unfolding t' by (simp add: columns_def comp_def cong: if_cong)
  have al: "\<forall>c \<in> set t. length (cells c) = nrows t"
    using alignedD [OF assms(1)] by blast
  have "rows_of t' = map (row_map (\<lambda>l. l \<in> set (selected_columns t sel))
                              (\<lambda>v. Str (py_strip (to_str num_str v))) (columns t)) (rows_of t)"
    unfolding rows_of_def n columns_def unfolding t' using al by (rule rows_map_cells)
  with al' lab show ?thesis by simp
qed

section \<open>A header without records\<close>











section \<open>The store\<close>

lemma for_each_st_local:
  assumes "\<And>x h r. n \<le> r \<Longrightarrow> r < length h \<Longrightarrow> local_run n h r (body x (h ! r)) (body_st x h r)"
    "n \<le> r" "r < length h"
  shows "local_run n h r (for_each body xs (h ! r)) (for_each_st body_st xs h r)"
  using assms(2,3)
proof (induction xs arbitrary: h r)
  case Nil
  then show ?case by (simp add: local_run_def)
next
  case (Cons x xs)
  note step = assms(1) [OF Cons.prems, of x]
  obtain h' res where b: "body_st x h r = (h', res)" by (cases "body_st x h r")
  show ?case
  proof (cases res)
    case (Inl e)
    with step b show ?thesis by (simp add: local_run_def)
  next
    case (Inr r')
    with step b have s: "take n h' = take n h" "length h \<le> length h'" "n \<le> r'" "r' < length h'"
      "body x (h ! r) = Inr (h' ! r')"
      by (simp_all add: local_run_def)
    from Cons.IH [OF s(3,4)] have "local_run n h' r' (for_each body xs (h' ! r')) (for_each_st body_st xs h' r')" .
    then show ?thesis
      using s b Inr by (auto simp: local_run_def split: prod.splits sum.splits)
  qed
qed

lemma update_local:
  "n \<le> r \<Longrightarrow> r < length h \<Longrightarrow>
   local_run n h r (f (h ! r)) (case f (h ! r) of Inl e \<Rightarrow> (h, Inl e) | Inr t \<Rightarrow> (h[r := t], Inr r))"
  by (cases "f (h ! r)") (simp_all add: local_run_def)

lemma alloc_local:
  "n \<le> r \<Longrightarrow> r < length h \<Longrightarrow>
   local_run n h r (f (h ! r)) (case f (h ! r) of Inl e \<Rightarrow> (h, Inl e) | Inr t \<Rightarrow> (h @ [t], Inr (length h)))"
  by (cases "f (h ! r)") (simp_all add: local_run_def)

lemma local_run_after_copy:
  assumes "df < length h" "local_run (length h) (h @ [h ! df]) (length h) res out"
  shows "returns_fresh h res out"
  using assms by (auto simp: local_run_def returns_fresh_def split: prod.splits sum.splits)

lemma strip_body_st_local:
  "n \<le> r \<Longrightarrow> r < length h \<Longrightarrow>
   local_run n h r (strip_body num_str x (h ! r)) (strip_body_st num_str x h r)"
  unfolding strip_body_st_def by (rule update_local)

lemma numeric_body_st_local:
  "n \<le> r \<Longrightarrow> r < length h \<Longrightarrow>
   local_run n h r (numeric_body parse x (h ! r)) (numeric_body_st parse x h r)"
  unfolding numeric_body_st_def by (rule update_local)

lemma filter_body_st_local:
  "n \<le> r \<Longrightarrow> r < length h \<Longrightarrow>
   local_run n h r (filter_body x (h ! r)) (filter_body_st x h r)"
  unfolding filter_body_st_def by (rule alloc_local)

lemma clean_column_names_st_fresh:
  assumes "df < length h"
  shows "case clean_column_names_st h df of (h', r) \<Rightarrow>
           take (length h) h' = h \<and> length h \<le> r \<and> r < length h'
           \<and> h' ! r = clean_column_names (h ! df)"
  by (simp add: clean_column_names_st_def copy_df_def clean_column_names_def nth_append Let_def)

lemma strip_text_columns_st_fresh:
  assumes "df < length h"
  shows "returns_fresh h (strip_text_columns num_str (h ! df) sel)
           (strip_text_columns_st num_str h df sel)"
proof -
  let ?h1 = "h @ [h ! df]"
  have at: "?h1 ! length h = h ! df" by simp
  have "local_run (length h) ?h1 (length h)
          (for_each (strip_body num_str) (selected_columns (h ! df) sel) (?h1 ! length h))
          (for_each_st (strip_body_st num_str) (selected_columns (h ! df) sel) ?h1 (length h))"
    by (rule for_each_st_local) (simp_all add: strip_body_st_local)
  then have "local_run (length h) ?h1 (length h) (strip_text_columns num_str (h ! df) sel)
          (strip_text_columns_st num_str h df sel)"
    by (simp add: strip_text_columns_loop strip_text_columns_st_def copy_df_def)
  with assms show ?thesis by (rule local_run_after_copy)
qed

lemma handle_missing_values_st_fresh:
  assumes "df < length h"
  shows "returns_fresh h (handle_missing_values parse (h ! df)) (handle_missing_values_st parse h df)"
proof -
  let ?h1 = "h @ [h ! df]"
  let ?cols = "price_cols (h ! df) @ qty_cols (h ! df)"
  have at: "?h1 ! length h = h ! df" by simp
  have loop: "local_run (length h) ?h1 (length h)
          (for_each (numeric_body parse) ?cols (?h1 ! length h))
          (for_each_st (numeric_body_st parse) ?cols ?h1 (length h))"
    by (rule for_each_st_local) (simp_all add: numeric_body_st_local)
  obtain h2 res where out: "for_each_st (numeric_body_st parse) ?cols ?h1 (length h) = (h2, res)"
    by (cases "for_each_st (numeric_body_st parse) ?cols ?h1 (length h)")
  have "local_run (length h) ?h1 (length h) (handle_missing_values parse (h ! df))
          (handle_missing_values_st parse h df)"
  proof (cases res)
    case (Inl e)
    with loop out show ?thesis
      by (simp add: local_run_def handle_missing_values_def handle_missing_values_st_def copy_df_def)
  next
    case (Inr r)
    with loop out have s: "take (length h) h2 = take (length h) ?h1" "length ?h1 \<le> length h2"
      "length h \<le> r" "r < length h2" "for_each (numeric_body parse) ?cols (h ! df) = Inr (h2 ! r)"
      by (simp_all add: local_run_def)
    show ?thesis
    proof (cases "dropna (h2 ! r) (remdups ?cols)")
      case (Inl e)
      with s out Inr show ?thesis
        by (simp add: local_run_def handle_missing_values_def handle_missing_values_st_def
            copy_df_def Let_def)
    next
      case (Inr t)
      with s out \<open>res = Inr r\<close> show ?thesis
        by (simp add: local_run_def handle_missing_values_def handle_missing_values_st_def
            copy_df_def Let_def)
    qed
  qed
  with assms show ?thesis by (rule local_run_after_copy)
qed

lemma remove_invalid_rows_st_fresh:
  assumes "df < length h"
  shows "returns_fresh h (remove_invalid_rows (h ! df)) (remove_invalid_rows_st h df)"
proof -
  let ?h1 = "h @ [h ! df]"
  have at: "?h1 ! length h = h ! df" by simp
  have loop: "local_run (length h) ?h1 (length h)
          (for_each filter_body (price_cols (h ! df)) (?h1 ! length h))
          (for_each_st filter_body_st (price_cols (h ! df)) ?h1 (length h))"
    by (rule for_each_st_local) (simp_all add: filter_body_st_local)
  obtain h2 res where out: "for_each_st filter_body_st (price_cols (h ! df)) ?h1 (length h) = (h2, res)"
    by (cases "for_each_st filter_body_st (price_cols (h ! df)) ?h1 (length h)")
  have "local_run (length h) ?h1 (length h) (remove_invalid_rows (h ! df))
          (remove_invalid_rows_st h df)"
  proof (cases res)
    case (Inl e)
    with loop out show ?thesis
      by (simp add: local_run_def remove_invalid_rows_def remove_invalid_rows_st_def copy_df_def)
  next
    case (Inr r)
    with loop out have s: "take (length h) h2 = take (length h) ?h1" "length ?h1 \<le> length h2"
      "length h \<le> r" "r < length h2" "for_each filter_body (price_cols (h ! df)) (h ! df) = Inr (h2 ! r)"
      by (simp_all add: local_run_def)
    have "local_run (length h) h2 r
          (for_each filter_body (qty_cols (h ! df)) (h2 ! r))
          (for_each_st filter_body_st (qty_cols (h ! df)) h2 r)"
      using s(3,4) by (intro for_each_st_local) (simp_all add: filter_body_st_local)
    with s out Inr show ?thesis
      by (auto simp: local_run_def remove_invalid_rows_def remove_invalid_rows_st_def
          copy_df_def Let_def split: prod.splits sum.splits)
  qed
  with assms show ?thesis by (rule local_run_after_copy)
qed

lemma rows_of_set_columns:
  "length names = length t \<Longrightarrow> rows_of (set_columns t names) = rows_of t"
proof -
  assume len: "length names = length t"
  have "rows n (set_columns t names) = rows n t" for n
    using len by (induction t arbitrary: names) (auto simp: set_columns_def length_Suc_conv)
  moreover have "nrows (set_columns t names) = nrows t"
    using len by (cases t; cases names) (auto simp: nrows_def set_columns_def)
  ultimately show ?thesis by (simp add: rows_of_def)
qed

section \<open>The claims\<close>

text \<open>
  Claim C3. The Column Normalizer renames every column to the trimmed, lowercased
  label in which each maximal run of non-word characters is one underscore, and
  leaves the cells and dtypes of every column as they are. A run \<open>n\<close> of non-word
  characters between a word prefix \<open>u\<close> and a rest \<open>v\<close> that does not continue the run
  is replaced by a single underscore. The header \<open>Product Name\<close>, \<open> Unit-Price \<close>,
  \<open>QTY!\<close> becomes \<open>product_name\<close>, \<open>unit_price\<close>, \<open>qty_\<close>.
\<close>

theorem clean_column_names_renames:
  "columns (clean_column_names t) = map (\<lambda>l. sub_nonword (py_lower (py_strip l))) (columns t)
   \<and> map cells (clean_column_names t) = map cells t
   \<and> map dtype (clean_column_names t) = map dtype t
   \<and> (\<forall>u n v. (\<forall>c \<in> set u. is_word c) \<and> n \<noteq> [] \<and> (\<forall>c \<in> set n. \<not> is_word c)
         \<and> (v = [] \<or> is_word (hd v))
         \<longrightarrow> sub_nonword (u @ n @ v) = u @ ''_'' @ sub_nonword v)
   \<and> (columns t = [''Product Name'', '' Unit-Price '', ''QTY!'']
        \<longrightarrow> columns (clean_column_names t) = [''product_name'', ''unit_price'', ''qty_''])"
proof -
  have len: "length (map sub_nonword (map py_lower (map py_strip (columns t)))) = length t"
    by (simp add: columns_def)
  have 1: "columns (clean_column_names t) = map (\<lambda>l. sub_nonword (py_lower (py_strip l))) (columns t)"
    using columns_clean_column_names [of t] by (simp add: normalize_name_def [abs_def])
  have 2: "map cells (clean_column_names t) = map cells t"
    unfolding clean_column_names_def Let_def using len by (rule cells_set_columns)
  have 3: "map dtype (clean_column_names t) = map dtype t"
    unfolding clean_column_names_def Let_def using len by (rule dtype_set_columns)
  have 4: "sub_nonword (u @ n @ v) = u @ ''_'' @ sub_nonword v"
    if "\<forall>c \<in> set u. is_word c" "n \<noteq> []" "\<forall>c \<in> set n. \<not> is_word c" "v = [] \<or> is_word (hd v)"
    for u n v
    using that by (simp add: sub_nonword_word_prefix sub_nonword_run)
  have ex: "map (\<lambda>l. sub_nonword (py_lower (py_strip l))) [''Product Name'', '' Unit-Price '', ''QTY!'']
            = [''product_name'', ''unit_price'', ''qty_'']"
    by code_simp
  have 5: "columns t = [''Product Name'', '' Unit-Price '', ''QTY!'']
        \<longrightarrow> columns (clean_column_names t) = [''product_name'', ''unit_price'', ''qty_'']"
    using 1 ex by simp
  from 1 2 3 4 5 show ?thesis by blast
qed

text \<open>The claim at the example header.\<close>

theorem clean_column_names_renames_witness:
  "columns header_example = [''Product Name'', '' Unit-Price '', ''QTY!'']
   \<and> columns (clean_column_names header_example) = [''product_name'', ''unit_price'', ''qty_'']
   \<and> map cells (clean_column_names header_example) = [[Str '' Apple ''], [Str ''1''], [Str ''2'']]
   \<and> sub_nonword (''a'' @ '' - '' @ ''b'') = ''a'' @ ''_'' @ sub_nonword ''b''"
proof -
  have h: "columns header_example = [''Product Name'', '' Unit-Price '', ''QTY!'']"
    by (simp add: header_example_def columns_def)
  have c: "map cells header_example = [[Str '' Apple ''], [Str ''1''], [Str ''2'']]"
    by (simp add: header_example_def)
  note th = clean_column_names_renames [of header_example]
  have r: "sub_nonword (''a'' @ '' - '' @ ''b'') = ''a'' @ ''_'' @ sub_nonword ''b''"
    by (rule th [THEN conjunct2, THEN conjunct2, THEN conjunct2, THEN conjunct1, rule_format])
      (simp add: is_word_def)
  have e: "columns (clean_column_names header_example) = [''product_name'', ''unit_price'', ''qty_'']"
    using th h by blast
  have d: "map cells (clean_column_names header_example) = map cells header_example"
    using th by blast
  from h e r d [unfolded c] show ?thesis by blast
qed

text \<open>
  Claim C6. Normalizing the column names twice gives the same column names as
  normalizing them once.
\<close>

theorem clean_column_names_idempotent:
  "columns (clean_column_names (clean_column_names t)) = columns (clean_column_names t)"
  by (simp add: columns_clean_column_names normalize_name_idem)



text \<open>
  Claim C1. When the Numeric Sanitizer returns, its rows are the input rows with every
  cell under a price or quantity label coerced to a number or, where the parser
  rejects it or it is missing, to the missing-value marker, and with every row
  dropped that holds a marker under such a label; so every price or quantity
  column of the result holds numbers only. It raises only when a price or
  quantity label is repeated. A row with the text \<open>N/A\<close> under a price label is
  dropped whatever its other cells are.
\<close>

theorem handle_missing_values_sanitizes:
  assumes "aligned t"
  shows "(case handle_missing_values parse t of
            Inr t' \<Rightarrow>
              columns t' = columns t \<and> aligned t'
              \<and> rows_of t' = filter (row_all matched notna (columns t))
                                (map (row_map matched (coerce parse) (columns t)) (rows_of t))
              \<and> (\<forall>c \<in> set t'. matched (label c) \<longrightarrow> list_all is_num (cells c))
          | Inl e \<Rightarrow> e = TypeError \<and> \<not> distinct (filter matched (columns t)))
         \<and> (\<forall>l r. parse ''N/A'' = None \<and> sublist ''price'' l
                  \<and> (l, Str ''N/A'') \<in> set (zip (columns t) r)
               \<longrightarrow> \<not> row_all matched notna (columns t)
                       (row_map matched (coerce parse) (columns t) r))"
proof -
  have 1: "case handle_missing_values parse t of
            Inr t' \<Rightarrow>
              columns t' = columns t \<and> aligned t'
              \<and> rows_of t' = filter (row_all matched notna (columns t))
                                (map (row_map matched (coerce parse) (columns t)) (rows_of t))
              \<and> (\<forall>c \<in> set t'. matched (label c) \<longrightarrow> list_all is_num (cells c))
          | Inl e \<Rightarrow> e = TypeError \<and> \<not> distinct (filter matched (columns t))"
  proof (cases "handle_missing_values parse t")
    case (Inl e)
    then show ?thesis using handle_missing_values_error [of parse t e] by simp
  next
    case (Inr t')
    note r = handle_missing_values_rows [OF assms Inr]
    then have al: "aligned t'" and lab: "columns t' = columns t" by simp_all
    have rows: "rows_of t' = filter (row_all matched notna (columns t'))
                    (map (row_map matched (coerce parse) (columns t')) (rows_of t))"
      using r by (simp add: lab)
    have "list_all is_num (cells c)" if "c \<in> set t'" "matched (label c)" for c
      using al that rows by (rule matched_columns_numbers)
    then show ?thesis using Inr r by simp
  qed
  have 2: "\<not> row_all matched notna (columns t) (row_map matched (coerce parse) (columns t) r)"
    if "parse ''N/A'' = None" "sublist ''price'' l" "(l, Str ''N/A'') \<in> set (zip (columns t) r)"
    for l r
  proof (rule row_missing_dropped [OF that(3)])
    show "matched l" using that(2) by (simp add: matched_def)
    show "coerce parse (Str ''N/A'') = NaN" using that(1) by simp
  qed
  from 1 2 show ?thesis by blast
qed

text \<open>
  The claim at a table whose first row has the price \<open>N/A\<close> and whose second row
  lacks a quantity.
\<close>

theorem handle_missing_values_sanitizes_witness:
  "aligned sanitize_example
   \<and> digits_parser ''N/A'' = None
   \<and> rows_of sanitize_example
       = [[Str ''a'', Str ''N/A'', Str ''3''], [Str ''b'', Str ''12'', NaN], [Str ''c'', Str ''7'', Str ''4'']]
   \<and> (\<exists>t'. handle_missing_values digits_parser sanitize_example = Inr t'
          \<and> rows_of t' = [[Str ''c'', Num 7, Num 4]]
          \<and> (\<forall>c \<in> set t'. matched (label c) \<longrightarrow> list_all is_num (cells c)))
   \<and> \<not> row_all matched notna (columns sanitize_example)
         (row_map matched (coerce digits_parser) (columns sanitize_example)
            [Str ''a'', Str ''N/A'', Str ''3''])"
proof -
  have a: "aligned sanitize_example" by code_simp
  have p: "digits_parser ''N/A'' = None" by code_simp
  have r: "rows_of sanitize_example
       = [[Str ''a'', Str ''N/A'', Str ''3''], [Str ''b'', Str ''12'', NaN], [Str ''c'', Str ''7'', Str ''4'']]"
    by code_simp
  have run: "handle_missing_values digits_parser sanitize_example = Inr
     [\<lparr>label = ''name'', dtype = Object, cells = [Str ''c'']\<rparr>,
      \<lparr>label = ''unit_price'', dtype = Numeric, cells = [Num 7]\<rparr>,
      \<lparr>label = ''qty'', dtype = Numeric, cells = [Num 4]\<rparr>]" (is "_ = Inr ?t'")
    by code_simp
  have rr: "rows_of ?t' = [[Str ''c'', Num 7, Num 4]]" by code_simp
  note th = handle_missing_values_sanitizes [OF a, of digits_parser]
  from th run have num: "\<forall>c \<in> set ?t'. matched (label c) \<longrightarrow> list_all is_num (cells c)"
    by simp
  have z: "(''unit_price'', Str ''N/A'') \<in> set (zip (columns sanitize_example) [Str ''a'', Str ''N/A'', Str ''3''])"
    by (simp add: sanitize_example_def columns_def)
  have sp: "sublist ''price'' ''unit_price''" by code_simp
  from th p sp z have d: "\<not> row_all matched notna (columns sanitize_example)
         (row_map matched (coerce digits_parser) (columns sanitize_example)
            [Str ''a'', Str ''N/A'', Str ''3''])"
    by blast
  from a p r run rr num d show ?thesis by blast
qed





text \<open>
  Claim C10. When the Text Trimmer is called without labels and returns, every
  missing-value marker in an object column has become the text \<open>nan\<close>: no
  object column of the result holds a marker, and the result is the same as for
  the table in which those markers were the text \<open>nan\<close> from the start.
\<close>

theorem strip_text_columns_nan_text:
  assumes "strip_text_columns num_str t None = Inr t'"
  shows "t' = map (\<lambda>c. if dtype c = Object
                        then c\<lparr>cells := map (\<lambda>v. Str (py_strip (to_str num_str v))) (cells c)\<rparr>
                        else c) t
         \<and> to_str num_str NaN = ''nan'' \<and> py_strip ''nan'' = ''nan''
         \<and> (\<forall>c \<in> set t'. dtype c = Object \<longrightarrow> NaN \<notin> set (cells c))
         \<and> strip_text_columns num_str (nan_as_text t) None = Inr t'"
proof -
  note r = strip_text_columns_None_result [OF assms]
  have 1: "t' = map (\<lambda>c. if dtype c = Object
                        then c\<lparr>cells := map (\<lambda>v. Str (py_strip (to_str num_str v))) (cells c)\<rparr>
                        else c) t"
    unfolding r by (rule map_cong) (auto simp: text_series_def)
  have 2: "py_strip ''nan'' = ''nan''" by code_simp
  have 3: "\<forall>c \<in> set t'. dtype c = Object \<longrightarrow> NaN \<notin> set (cells c)"
    unfolding 1 by auto
  have u: "\<forall>x \<in> set (selected_columns t None). length (filter (\<lambda>c. label c = x) t) = 1"
    using for_each_strip_body_unique [OF assms [unfolded strip_text_columns_loop]] by blast
  have "\<forall>x \<in> set (selected_columns (nan_as_text t) None).
          length (filter (\<lambda>c. label c = x) (nan_as_text t)) = 1"
    using u
    by (simp only: selected_nan_as_text length_filter_on_labels [of _ "nan_as_text t"]
          length_filter_on_labels [of _ t] nan_as_text_labels) 
  from for_each_strip_body_total [OF this, of num_str] obtain t'' where
    run: "strip_text_columns num_str (nan_as_text t) None = Inr t''"
    by (auto simp: strip_text_columns_loop)
  have "t'' = t'"
    unfolding strip_text_columns_None_result [OF run] r by (rule text_series_nan_as_text)
  with run have 4: "strip_text_columns num_str (nan_as_text t) None = Inr t'" by simp
  from 1 2 3 4 show ?thesis by simp
qed

text \<open>
  The claim at a column holding a marker, the text \<open>nan\<close> and a padded text.
\<close>

theorem strip_text_columns_nan_text_witness:
  "strip_text_columns int_render nan_example None = Inr
       [\<lparr>label = ''category'', dtype = Object, cells = [Str ''nan'', Str ''nan'', Str ''x'']\<rparr>,
        \<lparr>label = ''amount'', dtype = Numeric, cells = [Num 1, NaN, Num 3]\<rparr>]
   \<and> nan_as_text nan_example =
       [\<lparr>label = ''category'', dtype = Object, cells = [Str ''nan'', Str ''nan'', Str '' x '']\<rparr>,
        \<lparr>label = ''amount'', dtype = Numeric, cells = [Num 1, NaN, Num 3]\<rparr>]
   \<and> strip_text_columns int_render (nan_as_text nan_example) None = Inr
       [\<lparr>label = ''category'', dtype = Object, cells = [Str ''nan'', Str ''nan'', Str ''x'']\<rparr>,
        \<lparr>label = ''amount'', dtype = Numeric, cells = [Num 1, NaN, Num 3]\<rparr>]"
proof -
  have r: "strip_text_columns int_render nan_example None = Inr
       [\<lparr>label = ''category'', dtype = Object, cells = [Str ''nan'', Str ''nan'', Str ''x'']\<rparr>,
        \<lparr>label = ''amount'', dtype = Numeric, cells = [Num 1, NaN, Num 3]\<rparr>]"
    by code_simp
  have n: "nan_as_text nan_example =
       [\<lparr>label = ''category'', dtype = Object, cells = [Str ''nan'', Str ''nan'', Str '' x '']\<rparr>,
        \<lparr>label = ''amount'', dtype = Numeric, cells = [Num 1, NaN, Num 3]\<rparr>]"
    by (simp add: nan_as_text_def nan_example_def)
  from strip_text_columns_nan_text [OF r] r n show ?thesis by blast
qed

text \<open>
  Claim C5. The rows that the Numeric Sanitizer returns are a subsequence of the
  coerced input rows, the rows that the Range Filter returns are a subsequence of
  its input rows, and the Column Normalizer and the Text Trimmer keep every row at
  its position.
\<close>

theorem stages_keep_row_order:
  assumes "aligned t"
  shows "(\<forall>t'. handle_missing_values parse t = Inr t' \<longrightarrow>
            subseq (rows_of t') (map (row_map matched (coerce parse) (columns t)) (rows_of t)))
         \<and> (\<forall>t'. remove_invalid_rows t = Inr t' \<longrightarrow> subseq (rows_of t') (rows_of t))
         \<and> rows_of (clean_column_names t) = rows_of t
         \<and> (\<forall>t' sel. strip_text_columns num_str t sel = Inr t' \<longrightarrow>
              rows_of t' = map (row_map (\<lambda>l. l \<in> set (selected_columns t sel))
                                  (\<lambda>v. Str (py_strip (to_str num_str v))) (columns t)) (rows_of t))"
proof -
  have 1: "subseq (rows_of t') (map (row_map matched (coerce parse) (columns t)) (rows_of t))"
    if "handle_missing_values parse t = Inr t'" for t'
    using handle_missing_values_rows [OF assms that] by simp
  have 2: "subseq (rows_of t') (rows_of t)" if "remove_invalid_rows t = Inr t'" for t'
    using remove_invalid_rows_rows [OF assms that] by simp
  have 3: "rows_of (clean_column_names t) = rows_of t"
    unfolding clean_column_names_def Let_def
    by (rule rows_of_set_columns) (simp add: columns_def)
  have 4: "rows_of t' = map (row_map (\<lambda>l. l \<in> set (selected_columns t sel))
                                  (\<lambda>v. Str (py_strip (to_str num_str v))) (columns t)) (rows_of t)"
    if "strip_text_columns num_str t sel = Inr t'" for t' sel
    using strip_text_columns_rows [OF assms that] by simp
  from 1 2 3 4 show ?thesis by blast
qed

text \<open>
  The claim at the sanitizer example, where the third row is the only survivor.
\<close>

theorem stages_keep_row_order_witness:
  "aligned sanitize_example
   \<and> (\<exists>t'. handle_missing_values digits_parser sanitize_example = Inr t'
        \<and> rows_of t' = [[Str ''c'', Num 7, Num 4]]
        \<and> subseq (rows_of t')
             (map (row_map matched (coerce digits_parser) (columns sanitize_example))
                [[Str ''a'', Str ''N/A'', Str ''3''], [Str ''b'', Str ''12'', NaN],
                 [Str ''c'', Str ''7'', Str ''4'']]))"
proof -
  have a: "aligned sanitize_example" by code_simp
  have r: "rows_of sanitize_example
       = [[Str ''a'', Str ''N/A'', Str ''3''], [Str ''b'', Str ''12'', NaN], [Str ''c'', Str ''7'', Str ''4'']]"
    by code_simp
  have run: "handle_missing_values digits_parser sanitize_example = Inr
     [\<lparr>label = ''name'', dtype = Object, cells = [Str ''c'']\<rparr>,
      \<lparr>label = ''unit_price'', dtype = Numeric, cells = [Num 7]\<rparr>,
      \<lparr>label = ''qty'', dtype = Numeric, cells = [Num 4]\<rparr>]" (is "_ = Inr ?t'")
    by code_simp
  have rr: "rows_of ?t' = [[Str ''c'', Num 7, Num 4]]" by code_simp
  from stages_keep_row_order [OF a, where parse = digits_parser] run
  have "subseq (rows_of ?t')
          (map (row_map matched (coerce digits_parser) (columns sanitize_example)) (rows_of sanitize_example))"
    by blast
  then have "subseq (rows_of ?t')
             (map (row_map matched (coerce digits_parser) (columns sanitize_example))
                [[Str ''a'', Str ''N/A'', Str ''3''], [Str ''b'', Str ''12'', NaN],
                 [Str ''c'', Str ''7'', Str ''4'']])"
    unfolding r .
  with a run rr show ?thesis by blast
qed




text \<open>
  Claim C4. Run on a store, each of the four stages leaves every frame that was in
  the store before the call as it was, the input frame among them; what it
  returns is a reference to a frame allocated during the call, holding the table
  that the stage computes from its input.
\<close>

theorem stages_leave_input_unchanged:
  assumes "df < length h"
  shows "(case clean_column_names_st h df of (h', r) \<Rightarrow>
            take (length h) h' = h \<and> h' ! df = h ! df \<and> length h \<le> r \<and> r < length h'
            \<and> h' ! r = clean_column_names (h ! df))
         \<and> returns_fresh h (strip_text_columns num_str (h ! df) sel)
              (strip_text_columns_st num_str h df sel)
         \<and> returns_fresh h (handle_missing_values parse (h ! df))
              (handle_missing_values_st parse h df)
         \<and> returns_fresh h (remove_invalid_rows (h ! df)) (remove_invalid_rows_st h df)"
proof -
  have 1: "case clean_column_names_st h df of (h', r) \<Rightarrow>
            take (length h) h' = h \<and> h' ! df = h ! df \<and> length h \<le> r \<and> r < length h'
            \<and> h' ! r = clean_column_names (h ! df)"
    using assms clean_column_names_st_fresh [OF assms]
    by (simp add: clean_column_names_st_def copy_df_def nth_append split: prod.splits)
  show ?thesis
    by (intro conjI)
      (rule 1, rule strip_text_columns_st_fresh [OF assms],
        rule handle_missing_values_st_fresh [OF assms], rule remove_invalid_rows_st_fresh [OF assms])
qed

text \<open>
  The claim at a store holding the range example. The loop body of the Text
  Trimmer alone overwrites the frame it is given; the stage, which copies first,
  leaves its input as it was.
\<close>

theorem stages_leave_input_unchanged_witness:
  "(0::nat) < length [range_example]
   \<and> remove_invalid_rows_st [range_example] 0 =
       ([range_example, range_example,
         [\<lparr>label = ''price'', dtype = Numeric, cells = [Num 10, Num 10]\<rparr>,
          \<lparr>label = ''qty'', dtype = Numeric, cells = [Num (- 1), Num 3]\<rparr>],
         [\<lparr>label = ''price'', dtype = Numeric, cells = [Num 10]\<rparr>,
          \<lparr>label = ''qty'', dtype = Numeric, cells = [Num 3]\<rparr>]], Inr 3)
   \<and> returns_fresh [range_example] (remove_invalid_rows ([range_example] ! 0))
        (remove_invalid_rows_st [range_example] 0)
   \<and> strip_body_st int_render ''product'' [trim_example] 0 =
       ([[\<lparr>label = ''product'', dtype = Object, cells = [Str ''Apple'', Str ''Banana'', Str ''pear'']\<rparr>]],
        Inr 0)
   \<and> fst (strip_text_columns_st int_render [trim_example] 0 None) ! 0 = trim_example"
proof -
  have l: "(0::nat) < length [range_example]" by simp
  have r: "remove_invalid_rows_st [range_example] 0 =
       ([range_example, range_example,
         [\<lparr>label = ''price'', dtype = Numeric, cells = [Num 10, Num 10]\<rparr>,
          \<lparr>label = ''qty'', dtype = Numeric, cells = [Num (- 1), Num 3]\<rparr>],
         [\<lparr>label = ''price'', dtype = Numeric, cells = [Num 10]\<rparr>,
          \<lparr>label = ''qty'', dtype = Numeric, cells = [Num 3]\<rparr>]], Inr 3)"
    by code_simp
  have b: "strip_body_st int_render ''product'' [trim_example] 0 =
       ([[\<lparr>label = ''product'', dtype = Object, cells = [Str ''Apple'', Str ''Banana'', Str ''pear'']\<rparr>]],
        Inr 0)"
    by code_simp
  have s: "fst (strip_text_columns_st int_render [trim_example] 0 None) ! 0 = trim_example"
    by code_simp
  have f: "returns_fresh [range_example] (remove_invalid_rows ([range_example] ! 0))
        (remove_invalid_rows_st [range_example] 0)"
    by (rule stages_leave_input_unchanged [OF l, THEN conjunct2, THEN conjunct2, THEN conjunct2])
  from l r f b s show ?thesis by blast
qed

end
